theory Spec2Isabelle
  imports Main
begin

section \<open>Python values used by the OTP gateway\<close>

text \<open>
  The gateway keeps all of its state in a Redis store opened with
  \<^verbatim>\<open>decode_responses=True\<close>: every stored value is a string, and a counter is the
  decimal string of an integer. \<open>str_of_int\<close> is Python's \<^verbatim>\<open>str\<close> on an integer and
  \<open>int_of_str\<close> is \<^verbatim>\<open>int\<close> on a string of the shape \<^verbatim>\<open>[+-]digits\<close> (the only shape
  the store's increment ever writes); any other string is the \<^verbatim>\<open>ValueError\<close> case,
  returned as \<open>None\<close>.
\<close>

definition digit_of :: "nat \<Rightarrow> char" where
  "digit_of d = char_of (48 + d)"

definition digit_val :: "char \<Rightarrow> nat option" where
  "digit_val c =
     (let n = (of_char c :: nat) in if 48 \<le> n \<and> n \<le> 57 then Some (n - 48) else None)"

function str_of_nat :: "nat \<Rightarrow> string" where
  "str_of_nat n =
     (if n < 10 then [digit_of n] else str_of_nat (n div 10) @ [digit_of (n mod 10)])"
  by pat_completeness auto
termination
  by (relation "measure (\<lambda>n. n)") auto

declare str_of_nat.simps [simp del]

definition str_of_int :: "int \<Rightarrow> string" where
  "str_of_int i = (if i < 0 then CHR ''-'' # str_of_nat (nat (- i)) else str_of_nat (nat i))"

fun nat_of_digits :: "nat \<Rightarrow> string \<Rightarrow> nat option" where
  "nat_of_digits acc [] = Some acc"
| "nat_of_digits acc (c # cs) =
     (case digit_val c of None \<Rightarrow> None | Some d \<Rightarrow> nat_of_digits (10 * acc + d) cs)"

definition nat_of_str :: "string \<Rightarrow> nat option" where
  "nat_of_str s = (if s = [] then None else nat_of_digits 0 s)"

definition int_of_str :: "string \<Rightarrow> int option" where
  "int_of_str s =
     (case s of
        [] \<Rightarrow> None
      | c # cs \<Rightarrow>
          if c = CHR ''-'' then map_option (\<lambda>n. - int n) (nat_of_str cs)
          else if c = CHR ''+'' then map_option int (nat_of_str cs)
          else map_option int (nat_of_str s))"

text \<open>\<^verbatim>\<open>s.split(',')[0]\<close>, as \<^verbatim>\<open>get_client_ip\<close> uses it: the part before the first comma.\<close>

definition split_comma_first :: "string \<Rightarrow> string" where
  "split_comma_first s = takeWhile (\<lambda>c. c \<noteq> CHR '','') s"


section \<open>The world a request runs in\<close>

text \<open>
  A store entry is a string value with an optional absolute expiry time. Time is counted in
  whole seconds, the unit of every duration in the source; a key whose expiry time has been
  reached is gone. Each call of a helper and each request executes at one instant \<open>now\<close>.
\<close>

type_synonym entry = "string \<times> int option"

datatype redis_cmd =
    INCR string
  | EXPIRE string int
  | TTL string
  | GET string
  | SETEX string int string
  | DEL string

datatype json = JStr string | JInt int | JBool bool

datatype task =
    Send_otp_email string string
  | Write_audit_log string string "string option" string "(string \<times> json) list"

record activation_code =
  ac_code :: string
  ac_count :: int
  ac_expiry_date :: int
  ac_updated_at :: int
  ac_verified :: bool

record user =
  u_id :: int
  u_username :: string
  u_email :: string
  u_first_name :: string
  u_last_name :: string
  u_is_active :: bool
  u_date_joined :: int
  u_activation_code :: "activation_code option"

datatype py_error =
    ResponseError
  | ValueError
  | IntegrityError
  | MultipleObjectsReturned
  | RelatedObjectDoesNotExist

record world =
  kv :: "string \<Rightarrow> entry option"
  cmds :: "redis_cmd list"
  rand :: "nat \<Rightarrow> nat"
  rand_pos :: nat
  queue :: "task list"
  users :: "user list"
  next_id :: int

text \<open>
  \<open>kv\<close> is the Redis keyspace, \<open>cmds\<close> the commands sent to the store so far (oldest
  first), \<open>rand\<close> and \<open>rand_pos\<close> the random source and how many draws were taken from it,
  \<open>queue\<close> the Celery tasks enqueued with \<^verbatim>\<open>.delay\<close>, \<open>users\<close> the user table and
  \<open>next_id\<close> its next primary key.

  A computation either returns a value or raises; the world it leaves behind is kept in
  both cases, since neither the store nor the table rolls anything back.
\<close>

type_synonym 'a io = "world \<Rightarrow> (py_error + 'a) \<times> world"

definition ret :: "'a \<Rightarrow> 'a io" where
  "ret x w = (Inr x, w)"

definition raise :: "py_error \<Rightarrow> 'a io" where
  "raise e w = (Inl e, w)"

definition and_then :: "'a io \<Rightarrow> ('a \<Rightarrow> 'b io) \<Rightarrow> 'b io" where
  "and_then m f w = (case m w of (Inl e, w') \<Rightarrow> (Inl e, w') | (Inr x, w') \<Rightarrow> f x w')"


section \<open>The store's commands\<close>

definition lookup :: "int \<Rightarrow> (string \<Rightarrow> entry option) \<Rightarrow> string \<Rightarrow> entry option" where
  "lookup now m k =
     (case m k of
        None \<Rightarrow> None
      | Some (v, ex) \<Rightarrow>
          (case ex of
             None \<Rightarrow> Some (v, ex)
           | Some t \<Rightarrow> if now < t then Some (v, ex) else None))"

definition sent :: "redis_cmd \<Rightarrow> world \<Rightarrow> world" where
  "sent c w = w\<lparr>cmds := cmds w @ [c]\<rparr>"

definition put :: "string \<Rightarrow> entry \<Rightarrow> world \<Rightarrow> world" where
  "put k e w = w\<lparr>kv := (kv w)(k \<mapsto> e)\<rparr>"

definition remove :: "string \<Rightarrow> world \<Rightarrow> world" where
  "remove k w = w\<lparr>kv := (kv w)(k := None)\<rparr>"

definition redis_incr :: "int \<Rightarrow> string \<Rightarrow> int io" where
  "redis_incr now k w =
     (case lookup now (kv w) k of
        None \<Rightarrow> (Inr 1, put k (''1'', None) (sent (INCR k) w))
      | Some (v, ex) \<Rightarrow>
          (case int_of_str v of
             None \<Rightarrow> (Inl ResponseError, sent (INCR k) w)
           | Some n \<Rightarrow> (Inr (n + 1), put k (str_of_int (n + 1), ex) (sent (INCR k) w))))"

definition redis_expire :: "int \<Rightarrow> string \<Rightarrow> int \<Rightarrow> bool io" where
  "redis_expire now k secs w =
     (case lookup now (kv w) k of
        None \<Rightarrow> (Inr False, sent (EXPIRE k secs) w)
      | Some (v, ex) \<Rightarrow>
          if secs \<le> 0 then (Inr True, remove k (sent (EXPIRE k secs) w))
          else (Inr True, put k (v, Some (now + secs)) (sent (EXPIRE k secs) w)))"

definition redis_ttl :: "int \<Rightarrow> string \<Rightarrow> int io" where
  "redis_ttl now k w =
     (case lookup now (kv w) k of
        None \<Rightarrow> (Inr (- 2), sent (TTL k) w)
      | Some (v, ex) \<Rightarrow>
          (case ex of
             None \<Rightarrow> (Inr (- 1), sent (TTL k) w)
           | Some t \<Rightarrow> (Inr (t - now), sent (TTL k) w)))"

definition redis_get :: "int \<Rightarrow> string \<Rightarrow> string option io" where
  "redis_get now k w = (Inr (map_option fst (lookup now (kv w) k)), sent (GET k) w)"

definition redis_setex :: "int \<Rightarrow> string \<Rightarrow> int \<Rightarrow> string \<Rightarrow> bool io" where
  "redis_setex now k secs v w =
     (if secs \<le> 0 then (Inl ResponseError, sent (SETEX k secs v) w)
      else (Inr True, put k (v, Some (now + secs)) (sent (SETEX k secs v) w)))"

definition redis_delete :: "int \<Rightarrow> string \<Rightarrow> int io" where
  "redis_delete now k w =
     (Inr (if lookup now (kv w) k = None then 0 else 1), remove k (sent (DEL k) w))"


section \<open>Configuration\<close>

record config =
  OTP_LENGTH :: int
  OTP_EXPIRY_SECONDS :: int
  EMAIL_LIMIT :: int
  EMAIL_WINDOW_SECONDS :: int
  IP_LIMIT :: int
  IP_WINDOW_SECONDS :: int
  FAILED_LIMIT :: int
  FAILED_WINDOW_SECONDS :: int

definition default_config :: config where
  "default_config =
     \<lparr>OTP_LENGTH = 6, OTP_EXPIRY_SECONDS = 300,
      EMAIL_LIMIT = 3, EMAIL_WINDOW_SECONDS = 600,
      IP_LIMIT = 10, IP_WINDOW_SECONDS = 3600,
      FAILED_LIMIT = 5, FAILED_WINDOW_SECONDS = 900\<rparr>"


section \<open>OTPService\<close>

definition otp_key :: "string \<Rightarrow> string" where
  "otp_key email = ''otp:'' @ email"

definition generate_otp :: "config \<Rightarrow> string io" where
  "generate_otp cfg w =
     (let k = nat (OTP_LENGTH cfg) in
      (Inr (map (\<lambda>i. digit_of (rand w (rand_pos w + i) mod 10)) [0..<k]),
       w\<lparr>rand_pos := rand_pos w + k\<rparr>))"

definition store_otp :: "config \<Rightarrow> int \<Rightarrow> string \<Rightarrow> string \<Rightarrow> bool io" where
  "store_otp cfg now email otp =
     and_then (redis_setex now (otp_key email) (OTP_EXPIRY_SECONDS cfg) otp) (\<lambda>_. ret True)"

definition verify_otp :: "int \<Rightarrow> string \<Rightarrow> string \<Rightarrow> bool io" where
  "verify_otp now email otp =
     and_then (redis_get now (otp_key email)) (\<lambda>stored_otp.
       if stored_otp = None \<or> stored_otp = Some [] then ret False
       else if stored_otp \<noteq> Some otp then ret False
       else and_then (redis_delete now (otp_key email)) (\<lambda>_. ret True))"


section \<open>RateLimiter\<close>

definition email_rl_key :: "string \<Rightarrow> string" where
  "email_rl_key email = ''ratelimit:email:'' @ email"

text \<open>An f-string prints \<^verbatim>\<open>None\<close> for an address the request does not carry.\<close>

definition py_str :: "string option \<Rightarrow> string" where
  "py_str x = (case x of None \<Rightarrow> ''None'' | Some s \<Rightarrow> s)"

definition ip_rl_key :: "string option \<Rightarrow> string" where
  "ip_rl_key ip_address = ''ratelimit:ip:'' @ py_str ip_address"

definition failed_key :: "string \<Rightarrow> string" where
  "failed_key email = ''failed_otp:'' @ email"

definition is_email_rate_limited :: "config \<Rightarrow> int \<Rightarrow> string \<Rightarrow> (bool \<times> int) io" where
  "is_email_rate_limited cfg now email =
     and_then (redis_incr now (email_rl_key email)) (\<lambda>current.
     and_then (if current = 1
               then redis_expire now (email_rl_key email) (EMAIL_WINDOW_SECONDS cfg)
               else ret False) (\<lambda>_.
       if current > EMAIL_LIMIT cfg
       then and_then (redis_ttl now (email_rl_key email)) (\<lambda>ttl. ret (True, ttl))
       else ret (False, 0)))"

definition is_ip_rate_limited :: "config \<Rightarrow> int \<Rightarrow> string option \<Rightarrow> (bool \<times> int) io" where
  "is_ip_rate_limited cfg now ip_address =
     and_then (redis_incr now (ip_rl_key ip_address)) (\<lambda>current.
     and_then (if current = 1
               then redis_expire now (ip_rl_key ip_address) (IP_WINDOW_SECONDS cfg)
               else ret False) (\<lambda>_.
       if current > IP_LIMIT cfg
       then and_then (redis_ttl now (ip_rl_key ip_address)) (\<lambda>ttl. ret (True, ttl))
       else ret (False, 0)))"

definition track_failed_attempt :: "config \<Rightarrow> int \<Rightarrow> string \<Rightarrow> (bool \<times> int) io" where
  "track_failed_attempt cfg now email =
     and_then (redis_incr now (failed_key email)) (\<lambda>current.
     and_then (if current = 1
               then redis_expire now (failed_key email) (FAILED_WINDOW_SECONDS cfg)
               else ret False) (\<lambda>_.
       if current \<ge> FAILED_LIMIT cfg
       then and_then (redis_ttl now (failed_key email)) (\<lambda>ttl. ret (True, ttl))
       else ret (False, 0)))"

definition is_email_locked :: "config \<Rightarrow> int \<Rightarrow> string \<Rightarrow> (bool \<times> int) io" where
  "is_email_locked cfg now email =
     and_then (redis_get now (failed_key email)) (\<lambda>count.
       case count of
         None \<Rightarrow> ret (False, 0)
       | Some c \<Rightarrow>
           if c = [] then ret (False, 0)
           else (case int_of_str c of
                   None \<Rightarrow> raise ValueError
                 | Some n \<Rightarrow>
                     if n \<ge> FAILED_LIMIT cfg
                     then and_then (redis_ttl now (failed_key email)) (\<lambda>ttl. ret (True, ttl))
                     else ret (False, 0)))"

definition clear_failed_attempts :: "int \<Rightarrow> string \<Rightarrow> bool io" where
  "clear_failed_attempts now email =
     and_then (redis_delete now (failed_key email)) (\<lambda>_. ret True)"


section \<open>Requests, serializers and responses\<close>

record request =
  data_email :: "string option"
  data_otp :: "string option"
  HTTP_X_FORWARDED_FOR :: "string option"
  REMOTE_ADDR :: "string option"
  HTTP_USER_AGENT :: "string option"

text \<open>
  Library code the source calls is a parameter of the model, with no property assumed:
  \<open>py_lower\<close>, \<open>py_isdigit\<close> and \<open>py_strip\<close> are Python's \<^verbatim>\<open>str.lower\<close>,
  \<^verbatim>\<open>str.isdigit\<close> and \<^verbatim>\<open>str.strip\<close>; \<open>email_field\<close> and \<open>otp_field\<close> are the REST
  framework's \<^verbatim>\<open>EmailField(required=True)\<close> and
  \<^verbatim>\<open>CharField(max_length=6, min_length=6, required=True)\<close> run on a value that is present
  (the error message, or the cleaned value); \<open>for_user\<close> is \<^verbatim>\<open>RefreshToken.for_user\<close>,
  giving the refresh and the access token.
\<close>

record deps =
  py_lower :: "string \<Rightarrow> string"
  py_isdigit :: "string \<Rightarrow> bool"
  py_strip :: "string \<Rightarrow> string"
  email_field :: "string \<Rightarrow> string + string"
  otp_field :: "string \<Rightarrow> string + string"
  for_user :: "user \<Rightarrow> string \<times> string"

definition get_client_ip :: "deps \<Rightarrow> request \<Rightarrow> string option" where
  "get_client_ip d request =
     (case HTTP_X_FORWARDED_FOR request of
        None \<Rightarrow> REMOTE_ADDR request
      | Some x_forwarded_for \<Rightarrow>
          if x_forwarded_for \<noteq> []
          then Some (py_strip d (split_comma_first x_forwarded_for))
          else REMOTE_ADDR request)"

definition get_client_user_agent :: "request \<Rightarrow> string" where
  "get_client_user_agent request =
     (case HTTP_USER_AGENT request of None \<Rightarrow> [] | Some ua \<Rightarrow> ua)"

text \<open>A field that is required and missing from the request data is an error.\<close>

definition run_email_field :: "deps \<Rightarrow> string option \<Rightarrow> string + string" where
  "run_email_field d x =
     (case x of None \<Rightarrow> Inl ''This field is required.'' | Some s \<Rightarrow> email_field d s)"

definition validate_email :: "deps \<Rightarrow> string \<Rightarrow> string" where
  "validate_email d v = py_lower d v"

definition run_otp_field :: "deps \<Rightarrow> string option \<Rightarrow> string + string" where
  "run_otp_field d x =
     (case x of None \<Rightarrow> Inl ''This field is required.'' | Some s \<Rightarrow> otp_field d s)"

definition validate_otp :: "deps \<Rightarrow> string \<Rightarrow> string + string" where
  "validate_otp d v =
     (if \<not> py_isdigit d v then Inl ''OTP must contain only digits'' else Inr v)"

definition OTPRequestSerializer_is_valid ::
  "deps \<Rightarrow> request \<Rightarrow> (string \<times> string) list + string" where
  "OTPRequestSerializer_is_valid d request =
     (case run_email_field d (data_email request) of
        Inl msg \<Rightarrow> Inl [(''email'', msg)]
      | Inr v \<Rightarrow> Inr (validate_email d v))"

definition OTPVerifySerializer_is_valid ::
  "deps \<Rightarrow> request \<Rightarrow> (string \<times> string) list + (string \<times> string)" where
  "OTPVerifySerializer_is_valid d request =
     (let e = (case run_email_field d (data_email request) of
                 Inl msg \<Rightarrow> Inl msg
               | Inr v \<Rightarrow> Inr (validate_email d v));
          p = (case run_otp_field d (data_otp request) of
                 Inl msg \<Rightarrow> Inl msg
               | Inr v \<Rightarrow> validate_otp d v)
      in case (e, p) of
           (Inr email, Inr otp) \<Rightarrow> Inr (email, otp)
         | (Inl m1, Inr _) \<Rightarrow> Inl [(''email'', m1)]
         | (Inr _, Inl m2) \<Rightarrow> Inl [(''otp'', m2)]
         | (Inl m1, Inl m2) \<Rightarrow> Inl [(''email'', m1), (''otp'', m2)])"

type_synonym user_data = "int \<times> string \<times> string \<times> string \<times> bool \<times> int"

definition UserSerializer_data :: "user \<Rightarrow> user_data" where
  "UserSerializer_data u =
     (u_id u, u_email u, u_first_name u, u_last_name u, u_is_active u, u_date_joined u)"

datatype resp_data =
    Errors "(string \<times> string) list"
  | Retry_after_seconds int
  | Unlock_eta_seconds int
  | Otp_sent string int
  | Empty_data
  | Session user_data string string

record response =
  r_success :: bool
  r_message :: string
  r_status_code :: nat
  r_data :: resp_data
  r_status :: nat

definition delay :: "task \<Rightarrow> unit io" where
  "delay t w = (Inr (), w\<lparr>queue := queue w @ [t]\<rparr>)"

text \<open>
  \<^verbatim>\<open>User.objects.get_or_create(email=email, defaults={'username': email})\<close> on a table
  whose \<^verbatim>\<open>username\<close> column is unique.
\<close>

definition get_or_create :: "int \<Rightarrow> string \<Rightarrow> (user \<times> bool) io" where
  "get_or_create now email w =
     (case filter (\<lambda>u. u_email u = email) (users w) of
        [] \<Rightarrow>
          if list_ex (\<lambda>u. u_username u = email) (users w) then (Inl IntegrityError, w)
          else
            (let u = \<lparr>u_id = next_id w, u_username = email, u_email = email,
                      u_first_name = [], u_last_name = [], u_is_active = True,
                      u_date_joined = now, u_activation_code = None\<rparr>
             in (Inr (u, True), w\<lparr>users := users w @ [u], next_id := next_id w + 1\<rparr>))
      | [u] \<Rightarrow> (Inr (u, False), w)
      | _ \<Rightarrow> (Inl MultipleObjectsReturned, w))"


section \<open>OTPRequestView\<close>

definition OTPRequestView_post :: "deps \<Rightarrow> config \<Rightarrow> int \<Rightarrow> request \<Rightarrow> response io" where
  "OTPRequestView_post d cfg now request =
     (case OTPRequestSerializer_is_valid d request of
        Inl errors \<Rightarrow>
          ret \<lparr>r_success = False, r_message = ''Invalid request'', r_status_code = 400,
               r_data = Errors errors, r_status = 400\<rparr>
      | Inr email \<Rightarrow>
          (let ip_address = get_client_ip d request;
               user_agent = get_client_user_agent request
           in
           and_then (is_email_rate_limited cfg now email) (\<lambda>(email_limited, email_retry).
             if email_limited then
               and_then (delay (Write_audit_log ''OTP_REQUESTED'' email ip_address user_agent
                                  [(''reason'', JStr ''Email rate limit exceeded'')])) (\<lambda>_.
               ret \<lparr>r_success = False,
                    r_message = ''Too many OTP requests. Please try again later.'',
                    r_status_code = 429, r_data = Retry_after_seconds email_retry,
                    r_status = 429\<rparr>)
             else
               and_then (is_ip_rate_limited cfg now ip_address) (\<lambda>(ip_limited, ip_retry).
                 if ip_limited then
                   and_then (delay (Write_audit_log ''OTP_REQUESTED'' email ip_address user_agent
                                      [(''reason'', JStr ''IP rate limit exceeded'')])) (\<lambda>_.
                   ret \<lparr>r_success = False,
                        r_message = ''Too many OTP requests from this IP. Please try again later.'',
                        r_status_code = 429, r_data = Retry_after_seconds ip_retry,
                        r_status = 429\<rparr>)
                 else
                   and_then (generate_otp cfg) (\<lambda>otp.
                   and_then (store_otp cfg now email otp) (\<lambda>_.
                   and_then (delay (Send_otp_email email otp)) (\<lambda>_.
                   and_then (delay (Write_audit_log ''OTP_REQUESTED'' email ip_address
                                      user_agent [])) (\<lambda>_.
                   ret \<lparr>r_success = True, r_message = ''OTP sent to your email'',
                        r_status_code = 202,
                        r_data = Otp_sent email (OTP_EXPIRY_SECONDS cfg),
                        r_status = 202\<rparr>))))))))"


section \<open>OTPVerifyView\<close>

definition OTPVerifyView_post :: "deps \<Rightarrow> config \<Rightarrow> int \<Rightarrow> request \<Rightarrow> response io" where
  "OTPVerifyView_post d cfg now request =
     (case OTPVerifySerializer_is_valid d request of
        Inl errors \<Rightarrow>
          ret \<lparr>r_success = False, r_message = ''Invalid request'', r_status_code = 400,
               r_data = Errors errors, r_status = 400\<rparr>
      | Inr (email, otp) \<Rightarrow>
          (let ip_address = get_client_ip d request;
               user_agent = get_client_user_agent request
           in
           and_then (is_email_locked cfg now email) (\<lambda>(is_locked, unlock_eta).
             if is_locked then
               and_then (delay (Write_audit_log ''OTP_LOCKED'' email ip_address user_agent
                                  [(''attempt_number'', JStr ''locked'')])) (\<lambda>_.
               ret \<lparr>r_success = False,
                    r_message = ''Account locked due to too many failed attempts'',
                    r_status_code = 423, r_data = Unlock_eta_seconds unlock_eta,
                    r_status = 423\<rparr>)
             else
               and_then (verify_otp now email otp) (\<lambda>ok.
                 if \<not> ok then
                   and_then (track_failed_attempt cfg now email) (\<lambda>(is_now_locked, lockout_eta).
                     if is_now_locked then
                       and_then (delay (Write_audit_log ''OTP_LOCKED'' email ip_address user_agent
                                          [(''reason'', JStr ''Max failed attempts exceeded'')])) (\<lambda>_.
                       ret \<lparr>r_success = False,
                            r_message = ''Account locked due to too many failed attempts'',
                            r_status_code = 423, r_data = Unlock_eta_seconds lockout_eta,
                            r_status = 423\<rparr>)
                     else
                       and_then (delay (Write_audit_log ''OTP_FAILED'' email ip_address
                                          user_agent [])) (\<lambda>_.
                       ret \<lparr>r_success = False, r_message = ''Invalid OTP'',
                            r_status_code = 400, r_data = Empty_data, r_status = 400\<rparr>))
                 else
                   and_then (get_or_create now email) (\<lambda>(user, created).
                   and_then (clear_failed_attempts now email) (\<lambda>_.
                   (let (refresh, access) = for_user d user in
                    and_then (delay (Write_audit_log ''OTP_VERIFIED'' email ip_address user_agent
                                       [(''user_id'', JInt (u_id user)),
                                        (''user_created'', JBool created)])) (\<lambda>_.
                    ret \<lparr>r_success = True, r_message = ''OTP verified successfully'',
                         r_status_code = 201,
                         r_data = Session (UserSerializer_data user) access refresh,
                         r_status = 201\<rparr>))))))))"


section \<open>ResetPasswordRequestToken\<close>

text \<open>
  \<^verbatim>\<open>CustomResponse(success, message, status_code, data)\<close> of \<^verbatim>\<open>services.py\<close>: the payload
  carries \<^verbatim>\<open>success\<close> and \<^verbatim>\<open>message\<close>, and the HTTP status is \<^verbatim>\<open>status_code\<close>.
\<close>

record custom_response =
  cr_success :: bool
  cr_message :: string
  cr_data :: "string option"
  cr_status :: nat

definition CustomResponse :: "bool \<Rightarrow> string \<Rightarrow> nat \<Rightarrow> custom_response" where
  "CustomResponse s m c = \<lparr>cr_success = s, cr_message = m, cr_data = None, cr_status = c\<rparr>"

text \<open>
  The \<^verbatim>\<open>ActivationCode\<close> model that \<^verbatim>\<open>password.py\<close> imports is not part of the sources:
  its two class methods are the parameters \<open>generate_activation_code\<close> (the new reset code)
  and \<open>default_expiry_date\<close> (from the current time).
\<close>

definition save_activation_code :: "int \<Rightarrow> activation_code \<Rightarrow> unit io" where
  "save_activation_code uid ac w =
     (Inr (), w\<lparr>users := map (\<lambda>u. if u_id u = uid
                                     then u\<lparr>u_activation_code := Some ac\<rparr> else u) (users w)\<rparr>)"

definition ResetPasswordRequestToken_post ::
  "string io \<Rightarrow> (int \<Rightarrow> int) \<Rightarrow> int \<Rightarrow> string option \<Rightarrow> custom_response io" where
  "ResetPasswordRequestToken_post generate_activation_code default_expiry_date now email_opt w =
     (case email_opt of
        None \<Rightarrow> (Inr (CustomResponse False ''Kindly provide the email address.'' 400), w)
      | Some email \<Rightarrow>
          (case filter (\<lambda>u. u_email u = email) (users w) of
             [] \<Rightarrow> (Inr (CustomResponse True ''Email address not found!'' 404), w)
           | [user] \<Rightarrow>
               (case u_activation_code user of
                  None \<Rightarrow> (Inl RelatedObjectDoesNotExist, w)
                | Some activation_code_object \<Rightarrow>
                    and_then generate_activation_code (\<lambda>reset_code.
                    and_then (save_activation_code (u_id user)
                                (activation_code_object
                                   \<lparr>ac_count := ac_count activation_code_object + 1,
                                    ac_code := reset_code,
                                    ac_expiry_date := default_expiry_date now,
                                    ac_updated_at := now,
                                    ac_verified := True\<rparr>)) (\<lambda>_.
                    ret (CustomResponse True ''A token has been sent to your email.'' 200))) w)
           | _ \<Rightarrow> (Inl MultipleObjectsReturned, w)))"


section \<open>Sequences of calls\<close>

text \<open>
  \<open>run_seq f xs\<close> makes the calls \<open>f x\<close> for the inputs \<open>xs\<close> one after the other on the
  same world and collects what they return; it stops at the first call that raises.
\<close>

fun run_seq :: "('i \<Rightarrow> 'a io) \<Rightarrow> 'i list \<Rightarrow> 'a list io" where
  "run_seq f [] = ret []"
| "run_seq f (x # xs) =
     and_then (f x) (\<lambda>r. and_then (run_seq f xs) (\<lambda>rs. ret (r # rs)))"

text \<open>The three counters of the rate limiter and the call that increments each.\<close>

datatype counter = Email_rate string | Ip_rate "string option" | Failed_attempts string

fun counter_key :: "counter \<Rightarrow> string" where
  "counter_key (Email_rate email) = email_rl_key email"
| "counter_key (Ip_rate ip_address) = ip_rl_key ip_address"
| "counter_key (Failed_attempts email) = failed_key email"

fun counter_window :: "config \<Rightarrow> counter \<Rightarrow> int" where
  "counter_window cfg (Email_rate email) = EMAIL_WINDOW_SECONDS cfg"
| "counter_window cfg (Ip_rate ip_address) = IP_WINDOW_SECONDS cfg"
| "counter_window cfg (Failed_attempts email) = FAILED_WINDOW_SECONDS cfg"

fun increment :: "config \<Rightarrow> int \<Rightarrow> counter \<Rightarrow> (bool \<times> int) io" where
  "increment cfg now (Email_rate email) = is_email_rate_limited cfg now email"
| "increment cfg now (Ip_rate ip_address) = is_ip_rate_limited cfg now ip_address"
| "increment cfg now (Failed_attempts email) = track_failed_attempt cfg now email"

fun over_limit :: "config \<Rightarrow> counter \<Rightarrow> int \<Rightarrow> bool" where
  "over_limit cfg (Email_rate email) current = (current > EMAIL_LIMIT cfg)"
| "over_limit cfg (Ip_rate ip_address) current = (current > IP_LIMIT cfg)"
| "over_limit cfg (Failed_attempts email) current = (current \<ge> FAILED_LIMIT cfg)"

text \<open>
  What a counter key holds at time \<open>now\<close>: \<open>count_at\<close> is its value (0 when the key is
  absent or expired), and \<open>counter_wf\<close> says that a key that is present holds the decimal
  string of a count of at least 1 and has an expiry time, which is how the increments
  leave it.
\<close>

definition count_at :: "int \<Rightarrow> world \<Rightarrow> string \<Rightarrow> int" where
  "count_at now w k =
     (case lookup now (kv w) k of
        None \<Rightarrow> 0
      | Some (v, ex) \<Rightarrow> (case int_of_str v of None \<Rightarrow> 0 | Some n \<Rightarrow> n))"

definition counter_wf :: "int \<Rightarrow> world \<Rightarrow> string \<Rightarrow> bool" where
  "counter_wf now w k =
     (case lookup now (kv w) k of
        None \<Rightarrow> True
      | Some (v, ex) \<Rightarrow>
          ex \<noteq> None \<and>
          (case int_of_str v of None \<Rightarrow> False | Some n \<Rightarrow> 1 \<le> n \<and> v = str_of_int n))"

definition expiry_at :: "int \<Rightarrow> world \<Rightarrow> string \<Rightarrow> int option" where
  "expiry_at now w k = (case lookup now (kv w) k of None \<Rightarrow> None | Some (v, ex) \<Rightarrow> ex)"

text \<open>
  \<open>non_decreasing now k w w'\<close>: read at time \<open>now\<close>, the counter at key \<open>k\<close> is
  well-formed in \<open>w'\<close>, its value in \<open>w'\<close> is not below its value in \<open>w\<close>, and if it
  was running in \<open>w\<close> (value not 0) its window still ends when it did.
\<close>

definition non_decreasing :: "int \<Rightarrow> string \<Rightarrow> world \<Rightarrow> world \<Rightarrow> bool" where
  "non_decreasing now k w w' =
     (counter_wf now w' k
      \<and> count_at now w k \<le> count_at now w' k
      \<and> (count_at now w k = 0 \<or> expiry_at now w' k = expiry_at now w k))"

text \<open>The commands a call sent: those of the resulting world after those of the starting one.\<close>

definition sent_since :: "world \<Rightarrow> world \<Rightarrow> redis_cmd list" where
  "sent_since w w' = drop (length (cmds w)) (cmds w')"

text \<open>The tasks a call enqueued.\<close>

definition queued_since :: "world \<Rightarrow> world \<Rightarrow> task list" where
  "queued_since w w' = drop (length (queue w)) (queue w')"

text \<open>
  \<open>fails_bounded w email n\<close>: the failed-attempt key of \<open>email\<close> is unset, or holds a count
  between 1 and \<open>n\<close> with an expiry time. It does not mention the clock, so it holds at
  every later instant as long as the store is not written.
\<close>

definition fails_bounded :: "world \<Rightarrow> string \<Rightarrow> int \<Rightarrow> bool" where
  "fails_bounded w email n =
     (case kv w (failed_key email) of
        None \<Rightarrow> True
      | Some (v, ex) \<Rightarrow>
          ex \<noteq> None \<and>
          (case int_of_str v of
             None \<Rightarrow> False
           | Some c \<Rightarrow> 1 \<le> c \<and> c \<le> n \<and> v = str_of_int c))"

text \<open>
  \<open>can_resolve w email\<close>: \<^verbatim>\<open>get_or_create\<close> for \<open>email\<close> does not raise, because the table
  has one row with that email, or none and no row that already uses it as username.
\<close>

definition can_resolve :: "world \<Rightarrow> string \<Rightarrow> bool" where
  "can_resolve w email =
     (case filter (\<lambda>u. u_email u = email) (users w) of
        [] \<Rightarrow> \<not> list_ex (\<lambda>u. u_username u = email) (users w)
      | [u] \<Rightarrow> True
      | _ \<Rightarrow> False)"

text \<open>
  \<open>touches_only k w w'\<close>: from \<open>w\<close> to \<open>w'\<close> the store changed at most at key \<open>k\<close>,
  commands were only added to the log and no \<^verbatim>\<open>SETEX\<close> is among them, and the random
  source, the task queue and the user table are as they were.
\<close>

definition touches_only :: "string \<Rightarrow> world \<Rightarrow> world \<Rightarrow> bool" where
  "touches_only k w w' =
     ((\<forall>k'. k' \<noteq> k \<longrightarrow> kv w' k' = kv w k')
      \<and> rand_pos w' = rand_pos w \<and> queue w' = queue w \<and> users w' = users w
      \<and> (\<exists>cs. cmds w' = cmds w @ cs \<and> (\<forall>k' s v. SETEX k' s v \<notin> set cs)))"

text \<open>The two failure responses of \<^verbatim>\<open>OTPVerifyView.post\<close>, as the view builds them.\<close>

definition locked_response :: "int \<Rightarrow> response" where
  "locked_response eta =
     \<lparr>r_success = False, r_message = ''Account locked due to too many failed attempts'',
      r_status_code = 423, r_data = Unlock_eta_seconds eta, r_status = 423\<rparr>"

definition invalid_response :: response where
  "invalid_response =
     \<lparr>r_success = False, r_message = ''Invalid OTP'', r_status_code = 400,
      r_data = Empty_data, r_status = 400\<rparr>"

text \<open>A world with an empty store, an empty task queue and an empty user table.\<close>

definition world0 :: world where
  "world0 = \<lparr>kv = (\<lambda>k. None), cmds = [], rand = (\<lambda>i. i), rand_pos = 0, queue = [],
             users = [], next_id = 1\<rparr>"

text \<open>
  Concrete inputs for the examples. The parameters get simple values that agree with the
  library on the ASCII strings the examples use: lower-casing of \<open>A\<close> to \<open>Z\<close>, digits
  \<open>0\<close> to \<open>9\<close>, trimming of ASCII blanks, an email field that trims and asks for an
  \<open>@\<close>, and an OTP field that trims and asks for six characters. The examples also use
  fixed tokens, a request from one address, and a world whose store holds the code
  \<open>123456\<close> for \<open>a@x.com\<close> until second 300.
\<close>

definition ascii_lower :: "string \<Rightarrow> string" where
  "ascii_lower s =
     map (\<lambda>c. let n = (of_char c :: nat) in if 65 \<le> n \<and> n \<le> 90 then char_of (n + 32) else c) s"

definition ascii_isdigit :: "string \<Rightarrow> bool" where
  "ascii_isdigit s = (s \<noteq> [] \<and> list_all (\<lambda>c. digit_val c \<noteq> None) s)"

definition ascii_strip :: "string \<Rightarrow> string" where
  "ascii_strip s =
     rev (dropWhile (\<lambda>c. (of_char c :: nat) \<in> {9, 10, 11, 12, 13, 32})
       (rev (dropWhile (\<lambda>c. (of_char c :: nat) \<in> {9, 10, 11, 12, 13, 32}) s)))"

definition deps0 :: deps where
  "deps0 =
     \<lparr>py_lower = ascii_lower, py_isdigit = ascii_isdigit, py_strip = ascii_strip,
      email_field = (\<lambda>s. let v = ascii_strip s in
                          if v = [] then Inl ''This field may not be blank.''
                          else if CHR ''@'' \<notin> set v then Inl ''Enter a valid email address.''
                          else Inr v),
      otp_field = (\<lambda>s. let v = ascii_strip s in
                        if v = [] then Inl ''This field may not be blank.''
                        else if length v > 6
                        then Inl ''Ensure this field has no more than 6 characters.''
                        else if length v < 6
                        then Inl ''Ensure this field has at least 6 characters.''
                        else Inr v),
      for_user = (\<lambda>u. (''refresh-token'', ''access-token''))\<rparr>"

definition request0 :: "string \<Rightarrow> string \<Rightarrow> request" where
  "request0 e p =
     \<lparr>data_email = Some e, data_otp = Some p, HTTP_X_FORWARDED_FOR = None,
      REMOTE_ADDR = Some ''10.0.0.1'', HTTP_USER_AGENT = Some ''curl''\<rparr>"

definition world1 :: world where
  "world1 = world0\<lparr>kv := (kv world0)(otp_key ''a@x.com'' \<mapsto> (''123456'', Some 300))\<rparr>"

text \<open>
  What a run of increments returns when the counter holds \<open>c\<close> before the first of them
  and its window ends at time \<open>x\<close>.
\<close>

fun results_from :: "config \<Rightarrow> counter \<Rightarrow> int \<Rightarrow> int \<Rightarrow> int list \<Rightarrow> (bool \<times> int) list" where
  "results_from cfg ctr x c [] = []"
| "results_from cfg ctr x c (t # ts) =
     (over_limit cfg ctr (c + 1), if over_limit cfg ctr (c + 1) then x - t else 0)
       # results_from cfg ctr x (c + 1) ts"


section \<open>Decimal strings\<close>

lemma digit_val_digit_of: "d < 10 \<Longrightarrow> digit_val (digit_of d) = Some d"
  by (simp add: digit_val_def digit_of_def Let_def)

lemma nat_of_digits_append:
  "nat_of_digits acc (xs @ [c]) =
     (case nat_of_digits acc xs of
        None \<Rightarrow> None
      | Some m \<Rightarrow> (case digit_val c of None \<Rightarrow> None | Some d \<Rightarrow> Some (10 * m + d)))"
  by (induction xs arbitrary: acc) (auto split: option.splits)

lemma str_of_nat_nonempty: "str_of_nat n \<noteq> []"
  by (subst str_of_nat.simps) simp

lemma nat_of_digits_str_of_nat: "nat_of_digits 0 (str_of_nat n) = Some n"
proof (induction n rule: str_of_nat.induct)
  case (1 n)
  show ?case
  proof (cases "n < 10")
    case True
    then show ?thesis
      by (subst str_of_nat.simps) (simp add: digit_val_digit_of)
  next
    case False
    with 1 have "nat_of_digits 0 (str_of_nat (n div 10)) = Some (n div 10)" by simp
    with False show ?thesis
      by (subst str_of_nat.simps) (simp add: nat_of_digits_append digit_val_digit_of)
  qed
qed

lemma nat_of_str_str_of_nat: "nat_of_str (str_of_nat n) = Some n"
  by (simp add: nat_of_str_def str_of_nat_nonempty nat_of_digits_str_of_nat)

lemma hd_str_of_nat: "digit_val (hd (str_of_nat n)) \<noteq> None"
proof (induction n rule: str_of_nat.induct)
  case (1 n)
  show ?case
  proof (cases "n < 10")
    case True
    then show ?thesis by (subst str_of_nat.simps) (simp add: digit_val_digit_of)
  next
    case False
    with 1 show ?thesis
      by (subst str_of_nat.simps) (simp add: str_of_nat_nonempty)
  qed
qed

lemma digit_val_signs: "digit_val CHR ''-'' = None" "digit_val CHR ''+'' = None"
  by (simp_all add: digit_val_def)

lemma int_of_str_str_of_int: "int_of_str (str_of_int i) = Some i"
proof (cases "i < 0")
  case True
  then show ?thesis
    by (simp add: int_of_str_def str_of_int_def nat_of_str_str_of_nat)
next
  case False
  obtain c cs where s: "str_of_nat (nat i) = c # cs"
    using str_of_nat_nonempty [of "nat i"] by (cases "str_of_nat (nat i)") auto
  from hd_str_of_nat [of "nat i"] s have "digit_val c \<noteq> None" by simp
  then have "c \<noteq> CHR ''-''" "c \<noteq> CHR ''+''" using digit_val_signs by auto
  with False s nat_of_str_str_of_nat [of "nat i"] show ?thesis
    by (simp add: int_of_str_def str_of_int_def)
qed

lemma str_of_int_nonempty: "str_of_int i \<noteq> []"
  by (simp add: str_of_int_def str_of_nat_nonempty)

lemma str_of_int_1: "str_of_int 1 = ''1''"
  by code_simp

lemma str_of_int_inj: "str_of_int a = str_of_int b \<Longrightarrow> a = b"
  by (metis int_of_str_str_of_int option.inject)


section \<open>The store and the counters\<close>

lemmas io_defs = ret_def raise_def and_then_def
lemmas store_defs = sent_def put_def remove_def
lemmas redis_defs = redis_incr_def redis_expire_def redis_ttl_def redis_get_def
  redis_setex_def redis_delete_def

lemma lookup_upd_Some:
  "lookup now (m(k \<mapsto> (v, ex))) k' =
     (if k' = k then (case ex of None \<Rightarrow> Some (v, ex)
                      | Some t \<Rightarrow> if now < t then Some (v, ex) else None)
      else lookup now m k')"
  by (simp add: lookup_def)

lemma lookup_upd_None:
  "lookup now (m(k := None)) k' = (if k' = k then None else lookup now m k')"
  by (simp add: lookup_def)

lemma lookup_live: "lookup now m k = Some (v, Some x) \<Longrightarrow> now < x"
  by (auto simp: lookup_def split: option.splits if_splits)

lemma lookup_Some_kv: "lookup now m k = Some en \<Longrightarrow> m k = Some en"
  by (auto simp: lookup_def split: option.splits if_splits)

lemma lookup_kv_live: "m k = Some (v, Some x) \<Longrightarrow> now < x \<Longrightarrow> lookup now m k = Some (v, Some x)"
  by (simp add: lookup_def)

lemma lookup_kv_None: "m k = None \<Longrightarrow> lookup now m k = None"
  by (simp add: lookup_def)

lemma lookup_later:
  "now \<le> now' \<Longrightarrow> lookup now' m k = None \<or> lookup now' m k = lookup now m k"
  by (auto simp: lookup_def split: option.splits if_splits)

lemmas lookup_simps = lookup_upd_Some lookup_upd_None

subsection \<open>One increment\<close>

lemma increment_first:
  assumes "lookup now (kv w) (counter_key ctr) = None" "0 < counter_window cfg ctr"
  shows "increment cfg now ctr w =
    (Inr (over_limit cfg ctr 1, if over_limit cfg ctr 1 then counter_window cfg ctr else 0),
     w\<lparr>kv := (kv w)(counter_key ctr \<mapsto> (''1'', Some (now + counter_window cfg ctr))),
       cmds := cmds w @ INCR (counter_key ctr) # EXPIRE (counter_key ctr) (counter_window cfg ctr)
                 # (if over_limit cfg ctr 1 then [TTL (counter_key ctr)] else [])\<rparr>)"
  using assms
  by (cases ctr)
     (simp_all add: is_email_rate_limited_def is_ip_rate_limited_def track_failed_attempt_def
        io_defs store_defs redis_defs lookup_simps)

lemma increment_next:
  assumes "lookup now (kv w) (counter_key ctr) = Some (str_of_int c, Some x)" "1 \<le> c"
  shows "increment cfg now ctr w =
    (Inr (over_limit cfg ctr (c + 1), if over_limit cfg ctr (c + 1) then x - now else 0),
     w\<lparr>kv := (kv w)(counter_key ctr \<mapsto> (str_of_int (c + 1), Some x)),
       cmds := cmds w @ INCR (counter_key ctr)
                 # (if over_limit cfg ctr (c + 1) then [TTL (counter_key ctr)] else [])\<rparr>)"
  using assms lookup_live [OF assms(1)]
  by (cases ctr)
     (simp_all add: is_email_rate_limited_def is_ip_rate_limited_def track_failed_attempt_def
        io_defs store_defs redis_defs int_of_str_str_of_int lookup_simps)

subsection \<open>A run of increments inside one window\<close>

lemma run_increment_next:
  assumes "kv w (counter_key ctr) = Some (str_of_int c, Some x)" "1 \<le> c" "\<forall>t\<in>set ts. t < x"
  shows "\<exists>w'. run_seq (\<lambda>t. increment cfg t ctr) ts w = (Inr (results_from cfg ctr x c ts), w')
            \<and> kv w' = (kv w)(counter_key ctr \<mapsto> (str_of_int (c + int (length ts)), Some x))"
  using assms
proof (induction ts arbitrary: c w)
  case Nil
  then show ?case by (auto simp: ret_def)
next
  case (Cons t ts)
  let ?k = "counter_key ctr"
  from Cons.prems have live: "lookup t (kv w) ?k = Some (str_of_int c, Some x)"
    by (simp add: lookup_kv_live)
  obtain w1 where step: "increment cfg t ctr w =
      (Inr (over_limit cfg ctr (c + 1), if over_limit cfg ctr (c + 1) then x - t else 0), w1)"
    and kv1: "kv w1 = (kv w)(?k \<mapsto> (str_of_int (c + 1), Some x))"
    using increment_next [OF live Cons.prems(2), of cfg] by simp
  from kv1 have "kv w1 ?k = Some (str_of_int (c + 1), Some x)" by simp
  moreover from Cons.prems have "1 \<le> c + 1" "\<forall>t\<in>set ts. t < x" by simp_all
  ultimately obtain w2 where
    rest: "run_seq (\<lambda>t. increment cfg t ctr) ts w1 = (Inr (results_from cfg ctr x (c + 1) ts), w2)"
    and kv2: "kv w2 = (kv w1)(?k \<mapsto> (str_of_int (c + 1 + int (length ts)), Some x))"
    using Cons.IH [of w1 "c + 1"] by blast
  from step rest have "run_seq (\<lambda>t. increment cfg t ctr) (t # ts) w =
      (Inr (results_from cfg ctr x c (t # ts)), w2)"
    by (simp add: and_then_def ret_def)
  moreover from kv1 kv2 have
    "kv w2 = (kv w)(?k \<mapsto> (str_of_int (c + int (length (t # ts))), Some x))"
    by (simp add: algebra_simps)
  ultimately show ?case by blast
qed

lemma results_from_length: "length (results_from cfg ctr x c ts) = length ts"
  by (induction ts arbitrary: c) simp_all

lemma results_from_nth:
  "i < length ts \<Longrightarrow> results_from cfg ctr x c ts ! i =
     (over_limit cfg ctr (c + int i + 1),
      if over_limit cfg ctr (c + int i + 1) then x - ts ! i else 0)"
proof (induction ts arbitrary: c i)
  case Nil
  then show ?case by simp
next
  case (Cons t ts)
  show ?case
  proof (cases i)
    case 0
    then show ?thesis by simp
  next
    case (Suc j)
    with Cons.prems have "j < length ts" by simp
    from Cons.IH [OF this, of "c + 1"] Suc show ?thesis
      by (simp add: algebra_simps)
  qed
qed

lemma run_increment_window:
  assumes fresh: "lookup t0 (kv w) (counter_key ctr) = None"
      and win: "0 < counter_window cfg ctr"
      and ts: "\<forall>t\<in>set ts. t < t0 + counter_window cfg ctr"
  shows "\<exists>rs w'. run_seq (\<lambda>t. increment cfg t ctr) (t0 # ts) w = (Inr rs, w')
      \<and> length rs = Suc (length ts)
      \<and> (\<forall>i<length rs. rs ! i =
            (over_limit cfg ctr (int i + 1),
             if over_limit cfg ctr (int i + 1) then t0 + counter_window cfg ctr - (t0 # ts) ! i else 0))
      \<and> kv w' (counter_key ctr) =
            Some (str_of_int (int (length rs)), Some (t0 + counter_window cfg ctr))"
proof -
  let ?k = "counter_key ctr" and ?W = "counter_window cfg ctr"
  let ?r0 = "(over_limit cfg ctr 1, if over_limit cfg ctr 1 then ?W else 0)"
  obtain w1 where step: "increment cfg t0 ctr w = (Inr ?r0, w1)"
    and kv1: "kv w1 = (kv w)(?k \<mapsto> (''1'', Some (t0 + ?W)))"
    using increment_first [OF fresh win] by simp
  from kv1 have "kv w1 ?k = Some (str_of_int 1, Some (t0 + ?W))" by (simp add: str_of_int_1)
  then obtain w2 where
    rest: "run_seq (\<lambda>t. increment cfg t ctr) ts w1 = (Inr (results_from cfg ctr (t0 + ?W) 1 ts), w2)"
    and kv2: "kv w2 = (kv w1)(?k \<mapsto> (str_of_int (1 + int (length ts)), Some (t0 + ?W)))"
    using run_increment_next [of w1 ctr 1 "t0 + ?W" ts cfg] ts by auto
  let ?rs = "?r0 # results_from cfg ctr (t0 + ?W) 1 ts"
  from step rest have run: "run_seq (\<lambda>t. increment cfg t ctr) (t0 # ts) w = (Inr ?rs, w2)"
    by (simp add: and_then_def ret_def)
  have len: "length ?rs = Suc (length ts)" by (simp add: results_from_length)
  have nth: "?rs ! i = (over_limit cfg ctr (int i + 1),
             if over_limit cfg ctr (int i + 1) then t0 + ?W - (t0 # ts) ! i else 0)"
    if "i < length ?rs" for i
  proof (cases i)
    case 0
    then show ?thesis by simp
  next
    case (Suc j)
    with that len have "j < length ts" by simp
    from results_from_nth [OF this, of cfg ctr "t0 + ?W" 1] Suc show ?thesis
      by (simp add: algebra_simps)
  qed
  from kv2 len have "kv w2 ?k = Some (str_of_int (int (length ?rs)), Some (t0 + ?W))"
    by (simp add: algebra_simps)
  with run len nth show ?thesis by blast
qed


section \<open>The views, branch by branch\<close>

lemmas key_defs = otp_key_def failed_key_def email_rl_key_def ip_rl_key_def

lemma key_distinct:
  "otp_key a \<noteq> failed_key b" "failed_key b \<noteq> otp_key a"
  "otp_key a \<noteq> email_rl_key b" "email_rl_key b \<noteq> otp_key a"
  "otp_key a \<noteq> ip_rl_key i" "ip_rl_key i \<noteq> otp_key a"
  "failed_key a \<noteq> email_rl_key b" "email_rl_key b \<noteq> failed_key a"
  "failed_key a \<noteq> ip_rl_key i" "ip_rl_key i \<noteq> failed_key a"
  "email_rl_key a \<noteq> ip_rl_key i" "ip_rl_key i \<noteq> email_rl_key a"
  by (simp_all add: key_defs)

lemma otp_key_counter: "otp_key a \<noteq> counter_key ctr" "counter_key ctr \<noteq> otp_key a"
  by (cases ctr; simp add: key_distinct)+

lemma key_inj:
  "(otp_key a = otp_key b) = (a = b)"
  "(failed_key a = failed_key b) = (a = b)"
  "(email_rl_key a = email_rl_key b) = (a = b)"
  by (simp_all add: key_defs)

subsection \<open>verify_otp\<close>

lemma verify_otp_match:
  assumes "lookup now (kv w) (otp_key e) = Some (c, ex)" "c \<noteq> []"
  shows "verify_otp now e c w =
    (Inr True, w\<lparr>kv := (kv w)(otp_key e := None),
                 cmds := cmds w @ [GET (otp_key e), DEL (otp_key e)]\<rparr>)"
  using assms
  by (simp add: verify_otp_def io_defs store_defs redis_defs)

lemma verify_otp_mismatch:
  assumes "map_option fst (lookup now (kv w) (otp_key e)) \<noteq> Some p \<or> p = []"
  shows "verify_otp now e p w = (Inr False, w\<lparr>cmds := cmds w @ [GET (otp_key e)]\<rparr>)"
  using assms
  by (auto simp: verify_otp_def io_defs store_defs redis_defs)

subsection \<open>is_email_locked\<close>

lemma is_email_locked_locked:
  assumes "lookup now (kv w) (failed_key e) = Some (str_of_int c, Some x)" "FAILED_LIMIT cfg \<le> c"
  shows "is_email_locked cfg now e w =
    (Inr (True, x - now), w\<lparr>cmds := cmds w @ [GET (failed_key e), TTL (failed_key e)]\<rparr>)"
  using assms
  by (simp add: is_email_locked_def io_defs store_defs redis_defs int_of_str_str_of_int
      str_of_int_nonempty)

lemma is_email_locked_absent:
  assumes "lookup now (kv w) (failed_key e) = None"
  shows "is_email_locked cfg now e w =
    (Inr (False, 0), w\<lparr>cmds := cmds w @ [GET (failed_key e)]\<rparr>)"
  using assms
  by (simp add: is_email_locked_def io_defs store_defs redis_defs)

lemma is_email_locked_below:
  assumes "lookup now (kv w) (failed_key e) = Some (str_of_int c, ex)" "c < FAILED_LIMIT cfg"
  shows "is_email_locked cfg now e w =
    (Inr (False, 0), w\<lparr>cmds := cmds w @ [GET (failed_key e)]\<rparr>)"
  using assms
  by (simp add: is_email_locked_def io_defs store_defs redis_defs int_of_str_str_of_int
      str_of_int_nonempty)

subsection \<open>OTPVerifyView: the locked branch\<close>

lemma verify_post_locked:
  assumes valid: "OTPVerifySerializer_is_valid d request = Inr (e, p)"
      and cnt: "lookup now (kv w) (failed_key e) = Some (str_of_int c, Some x)"
      and lim: "FAILED_LIMIT cfg \<le> c"
  shows "OTPVerifyView_post d cfg now request w =
    (Inr (locked_response (x - now)),
     w\<lparr>cmds := cmds w @ [GET (failed_key e), TTL (failed_key e)],
       queue := queue w @ [Write_audit_log ''OTP_LOCKED'' e (get_client_ip d request)
                              (get_client_user_agent request)
                              [(''attempt_number'', JStr ''locked'')]]\<rparr>)"
  by (simp add: OTPVerifyView_post_def valid Let_def and_then_def
      is_email_locked_locked [OF cnt lim] delay_def ret_def locked_response_def)

subsection \<open>OTPVerifyView: a wrong code while not locked\<close>

lemma fails_bounded_cases:
  assumes "fails_bounded w e n"
  obtains (unset) "kv w (failed_key e) = None"
        | (set) c x where "kv w (failed_key e) = Some (str_of_int c, Some x)" "1 \<le> c" "c \<le> n"
  using assms
  by (auto simp: fails_bounded_def split: option.splits)

lemma fails_bounded_upd:
  "1 \<le> c \<Longrightarrow> c \<le> n \<Longrightarrow> kv w' (failed_key e) = Some (str_of_int c, Some x) \<Longrightarrow> fails_bounded w' e n"
  by (simp add: fails_bounded_def int_of_str_str_of_int)

lemma fails_bounded_unset: "kv w (failed_key e) = None \<Longrightarrow> fails_bounded w e n"
  by (simp add: fails_bounded_def)

lemma track_failed_attempt_increment:
  "track_failed_attempt cfg now e = increment cfg now (Failed_attempts e)"
  by simp

lemma verify_post_wrong_first:
  assumes valid: "OTPVerifySerializer_is_valid d request = Inr (e, p)"
      and cnt: "lookup now (kv w) (failed_key e) = None"
      and lim: "1 < FAILED_LIMIT cfg" and win: "0 < FAILED_WINDOW_SECONDS cfg"
      and bad: "map_option fst (lookup now (kv w) (otp_key e)) \<noteq> Some p \<or> p = []"
  shows "OTPVerifyView_post d cfg now request w =
    (Inr invalid_response,
     w\<lparr>kv := (kv w)(failed_key e \<mapsto> (''1'', Some (now + FAILED_WINDOW_SECONDS cfg))),
       cmds := cmds w @ [GET (failed_key e), GET (otp_key e), INCR (failed_key e),
                         EXPIRE (failed_key e) (FAILED_WINDOW_SECONDS cfg)],
       queue := queue w @ [Write_audit_log ''OTP_FAILED'' e (get_client_ip d request)
                              (get_client_user_agent request) []]\<rparr>)"
proof -
  let ?w1 = "w\<lparr>cmds := cmds w @ [GET (failed_key e)]\<rparr>"
  let ?w2 = "w\<lparr>cmds := cmds w @ [GET (failed_key e), GET (otp_key e)]\<rparr>"
  have l: "is_email_locked cfg now e w = (Inr (False, 0), ?w1)"
    by (rule is_email_locked_absent [OF cnt])
  have v: "verify_otp now e p ?w1 = (Inr False, ?w2)"
    using bad verify_otp_mismatch [of now ?w1 e p] by simp
  have t: "track_failed_attempt cfg now e ?w2 =
      (Inr (False, 0),
       w\<lparr>kv := (kv w)(failed_key e \<mapsto> (''1'', Some (now + FAILED_WINDOW_SECONDS cfg))),
         cmds := cmds w @ [GET (failed_key e), GET (otp_key e), INCR (failed_key e),
                           EXPIRE (failed_key e) (FAILED_WINDOW_SECONDS cfg)]\<rparr>)"
    using increment_first [of now ?w2 "Failed_attempts e" cfg] cnt lim win by simp
  show ?thesis
    by (simp add: OTPVerifyView_post_def valid Let_def and_then_def l v t delay_def ret_def
        invalid_response_def)
qed

lemma verify_post_wrong_next:
  assumes valid: "OTPVerifySerializer_is_valid d request = Inr (e, p)"
      and cnt: "lookup now (kv w) (failed_key e) = Some (str_of_int c, Some x)"
      and pos: "1 \<le> c" and lim: "c + 1 < FAILED_LIMIT cfg"
      and bad: "map_option fst (lookup now (kv w) (otp_key e)) \<noteq> Some p \<or> p = []"
  shows "OTPVerifyView_post d cfg now request w =
    (Inr invalid_response,
     w\<lparr>kv := (kv w)(failed_key e \<mapsto> (str_of_int (c + 1), Some x)),
       cmds := cmds w @ [GET (failed_key e), GET (otp_key e), INCR (failed_key e)],
       queue := queue w @ [Write_audit_log ''OTP_FAILED'' e (get_client_ip d request)
                              (get_client_user_agent request) []]\<rparr>)"
proof -
  let ?w1 = "w\<lparr>cmds := cmds w @ [GET (failed_key e)]\<rparr>"
  let ?w2 = "w\<lparr>cmds := cmds w @ [GET (failed_key e), GET (otp_key e)]\<rparr>"
  from lim have below: "c < FAILED_LIMIT cfg" by simp
  have l: "is_email_locked cfg now e w = (Inr (False, 0), ?w1)"
    by (rule is_email_locked_below [OF cnt below])
  have v: "verify_otp now e p ?w1 = (Inr False, ?w2)"
    using bad verify_otp_mismatch [of now ?w1 e p] by simp
  have t: "track_failed_attempt cfg now e ?w2 =
      (Inr (False, 0),
       w\<lparr>kv := (kv w)(failed_key e \<mapsto> (str_of_int (c + 1), Some x)),
         cmds := cmds w @ [GET (failed_key e), GET (otp_key e), INCR (failed_key e)]\<rparr>)"
    using increment_next [of now ?w2 "Failed_attempts e" c x cfg] cnt pos lim by simp
  show ?thesis
    by (simp add: OTPVerifyView_post_def valid Let_def and_then_def l v t delay_def ret_def
        invalid_response_def)
qed

lemma verify_post_wrong:
  assumes valid: "OTPVerifySerializer_is_valid d request = Inr (e, p)"
      and fb: "fails_bounded w e n" and n0: "0 \<le> n" and lim: "n + 1 < FAILED_LIMIT cfg"
      and win: "0 < FAILED_WINDOW_SECONDS cfg"
      and bad: "map_option fst (lookup now (kv w) (otp_key e)) \<noteq> Some p \<or> p = []"
  shows "\<exists>w'. OTPVerifyView_post d cfg now request w = (Inr invalid_response, w')
      \<and> fails_bounded w' e (n + 1)
      \<and> (\<forall>k. k \<noteq> failed_key e \<longrightarrow> kv w' k = kv w k)
      \<and> users w' = users w \<and> next_id w' = next_id w"
proof (cases "lookup now (kv w) (failed_key e)")
  case None
  from n0 lim have "1 < FAILED_LIMIT cfg" by simp
  from verify_post_wrong_first [OF valid None this win bad] n0 show ?thesis
    by (auto intro!: fails_bounded_upd [of 1 _ _ _ "now + FAILED_WINDOW_SECONDS cfg"]
        simp: str_of_int_1)
next
  case (Some en)
  then have kv: "kv w (failed_key e) = Some en" by (rule lookup_Some_kv)
  from fb kv obtain c x where en: "en = (str_of_int c, Some x)" and c: "1 \<le> c" "c \<le> n"
    by (cases rule: fails_bounded_cases) auto
  from c lim have "c + 1 < FAILED_LIMIT cfg" by simp
  from verify_post_wrong_next [OF valid Some [unfolded en] c(1) this bad] c show ?thesis
    by (auto intro!: fails_bounded_upd [of "c + 1" _ _ _ x])
qed

subsection \<open>OTPVerifyView: the right code\<close>

lemma is_email_locked_open:
  assumes fb: "fails_bounded w e n" and lim: "n < FAILED_LIMIT cfg"
  shows "is_email_locked cfg now e w =
    (Inr (False, 0), w\<lparr>cmds := cmds w @ [GET (failed_key e)]\<rparr>)"
proof (cases "lookup now (kv w) (failed_key e)")
  case None
  then show ?thesis by (rule is_email_locked_absent)
next
  case (Some en)
  then have kv: "kv w (failed_key e) = Some en" by (rule lookup_Some_kv)
  from fb kv obtain c x where en: "en = (str_of_int c, Some x)" and c: "1 \<le> c" "c \<le> n"
    by (cases rule: fails_bounded_cases) auto
  from c lim have "c < FAILED_LIMIT cfg" by simp
  from is_email_locked_below [OF Some [unfolded en] this] show ?thesis .
qed

lemma can_resolve_users: "users w' = users w \<Longrightarrow> can_resolve w' e = can_resolve w e"
  by (simp add: can_resolve_def cong: list.case_cong)

lemma get_or_create_ok:
  assumes "can_resolve w e"
  shows "\<exists>u b w'. get_or_create now e w = (Inr (u, b), w')
      \<and> kv w' = kv w \<and> cmds w' = cmds w \<and> queue w' = queue w \<and> rand_pos w' = rand_pos w
      \<and> can_resolve w' e"
proof (cases "filter (\<lambda>u. u_email u = e) (users w)")
  case Nil
  with assms have "\<not> list_ex (\<lambda>u. u_username u = e) (users w)"
    by (simp add: can_resolve_def)
  with Nil show ?thesis
    by (auto simp: get_or_create_def can_resolve_def Let_def)
next
  case (Cons u us)
  with assms have "us = []"
    by (cases us) (simp_all add: can_resolve_def)
  with Cons show ?thesis
    by (auto simp: get_or_create_def can_resolve_def)
qed

lemma clear_failed_attempts_eq:
  "clear_failed_attempts now e w =
     (Inr True, w\<lparr>kv := (kv w)(failed_key e := None), cmds := cmds w @ [DEL (failed_key e)]\<rparr>)"
  by (simp add: clear_failed_attempts_def io_defs store_defs redis_defs)

lemma verify_post_success:
  assumes valid: "OTPVerifySerializer_is_valid d request = Inr (e, c)"
      and fb: "fails_bounded w e n" and lim: "n < FAILED_LIMIT cfg"
      and otp: "lookup now (kv w) (otp_key e) = Some (c, ex)" and ne: "c \<noteq> []"
      and tab: "can_resolve w e"
  shows "\<exists>resp w'. OTPVerifyView_post d cfg now request w = (Inr resp, w')
      \<and> r_status resp = 201 \<and> r_success resp
      \<and> kv w' = (kv w)(otp_key e := None, failed_key e := None)
      \<and> can_resolve w' e"
proof -
  let ?w1 = "w\<lparr>cmds := cmds w @ [GET (failed_key e)]\<rparr>"
  let ?w2 = "w\<lparr>kv := (kv w)(otp_key e := None),
               cmds := cmds w @ [GET (failed_key e), GET (otp_key e), DEL (otp_key e)]\<rparr>"
  have l: "is_email_locked cfg now e w = (Inr (False, 0), ?w1)"
    by (rule is_email_locked_open [OF fb lim])
  have v: "verify_otp now e c ?w1 = (Inr True, ?w2)"
    using otp ne verify_otp_match [of now ?w1 e c ex] by simp
  have "can_resolve ?w2 e = can_resolve w e" by (rule can_resolve_users) simp
  with tab have "can_resolve ?w2 e" by simp
  from get_or_create_ok [OF this, of now] obtain u b w3 where
    g: "get_or_create now e ?w2 = (Inr (u, b), w3)"
    and kv3: "kv w3 = kv ?w2" and tab3: "can_resolve w3 e"
    by blast
  obtain refresh access where tok: "for_user d u = (refresh, access)"
    by (cases "for_user d u")
  let ?w4 = "w3\<lparr>kv := (kv w3)(failed_key e := None), cmds := cmds w3 @ [DEL (failed_key e)],
                queue := queue w3 @ [Write_audit_log ''OTP_VERIFIED'' e (get_client_ip d request)
                                       (get_client_user_agent request)
                                       [(''user_id'', JInt (u_id u)), (''user_created'', JBool b)]]\<rparr>"
  have run: "OTPVerifyView_post d cfg now request w =
      (Inr \<lparr>r_success = True, r_message = ''OTP verified successfully'', r_status_code = 201,
            r_data = Session (UserSerializer_data u) access refresh, r_status = 201\<rparr>, ?w4)"
    by (simp add: OTPVerifyView_post_def valid Let_def and_then_def l v g tok
        clear_failed_attempts_eq delay_def ret_def)
  have "can_resolve ?w4 e = can_resolve w3 e" by (rule can_resolve_users) simp
  with tab3 have "can_resolve ?w4 e" by simp
  moreover from kv3 have "kv ?w4 = (kv w)(otp_key e := None, failed_key e := None)" by simp
  ultimately show ?thesis using run by simp
qed

subsection \<open>OTPVerifyView: what a 201 leaves behind\<close>

lemma is_email_locked_frame:
  "is_email_locked cfg now e w = (r, w') \<Longrightarrow>
     kv w' = kv w \<and> (\<exists>cs. cmds w' = cmds w @ cs)"
  by (auto simp: is_email_locked_def io_defs store_defs redis_defs
      split: option.splits if_splits)

lemma verify_otp_True:
  "verify_otp now e p w = (Inr True, w') \<Longrightarrow>
     kv w' = (kv w)(otp_key e := None) \<and> (\<exists>cs. cmds w' = cmds w @ cs)"
  by (auto simp: verify_otp_def io_defs store_defs redis_defs split: option.splits if_splits)

lemma get_or_create_frame:
  "get_or_create now e w = (r, w') \<Longrightarrow> kv w' = kv w \<and> cmds w' = cmds w"
  by (auto simp: get_or_create_def Let_def split: list.splits if_splits)

lemma verify_post_201:
  assumes valid: "OTPVerifySerializer_is_valid d request = Inr (e, p)"
      and run: "OTPVerifyView_post d cfg now request w = (Inr resp, w')"
      and ok: "r_status resp = 201"
  shows "kv w' (failed_key e) = None \<and> kv w' (otp_key e) = None
      \<and> DEL (failed_key e) \<in> set (sent_since w w')"
proof -
  obtain r1 w1 where l: "is_email_locked cfg now e w = (r1, w1)"
    by (cases "is_email_locked cfg now e w")
  obtain r2 w2 where v: "verify_otp now e p w1 = (r2, w2)"
    by (cases "verify_otp now e p w1")
  obtain r3 w3 where t: "track_failed_attempt cfg now e w2 = (r3, w3)"
    by (cases "track_failed_attempt cfg now e w2")
  obtain r4 w4 where g: "get_or_create now e w2 = (r4, w4)"
    by (cases "get_or_create now e w2")
  from run ok have r2: "r2 = Inr True" and
    w': "kv w' = (kv w4)(failed_key e := None)" "cmds w' = cmds w4 @ [DEL (failed_key e)]"
    by (auto simp: OTPVerifyView_post_def valid Let_def and_then_def l v t g
        clear_failed_attempts_eq delay_def ret_def
        split: sum.splits prod.splits if_splits)
  from is_email_locked_frame [OF l] obtain cs1 where
    1: "kv w1 = kv w" "cmds w1 = cmds w @ cs1" by blast
  from verify_otp_True [OF v [unfolded r2]] obtain cs2 where
    2: "kv w2 = (kv w1)(otp_key e := None)" "cmds w2 = cmds w1 @ cs2" by blast
  from get_or_create_frame [OF g] have 4: "kv w4 = kv w2" "cmds w4 = cmds w2" by simp_all
  from w' 1 2 4 show ?thesis
    by (simp add: sent_since_def key_distinct)
qed

subsection \<open>Runs of verification requests\<close>

lemma lookup_cong: "m k = m' k \<Longrightarrow> lookup t m k = lookup t m' k"
  by (simp add: lookup_def)

lemma run_seq_append:
  assumes "run_seq f xs w = (Inr rs, w1)" "run_seq f ys w1 = (Inr rs', w2)"
  shows "run_seq f (xs @ ys) w = (Inr (rs @ rs'), w2)"
  using assms
proof (induction xs arbitrary: w rs)
  case Nil
  then show ?case by (simp add: ret_def)
next
  case (Cons a xs)
  from Cons.prems(1) obtain r w0 rs0 where
    a: "f a w = (Inr r, w0)" and rest: "run_seq f xs w0 = (Inr rs0, w1)" and rs: "rs = r # rs0"
    by (auto simp: and_then_def ret_def split: sum.splits prod.splits)
  from Cons.IH [OF rest Cons.prems(2)] a rs show ?case
    by (simp add: and_then_def ret_def)
qed

lemma verify_wrong_run:
  assumes reqs: "\<forall>(t, r)\<in>set reqs. \<exists>p. OTPVerifySerializer_is_valid d r = Inr (e, p)
                    \<and> (map_option fst (lookup t (kv w) (otp_key e)) \<noteq> Some p \<or> p = [])"
      and fb: "fails_bounded w e n" and n0: "0 \<le> n"
      and lim: "n + int (length reqs) < FAILED_LIMIT cfg"
      and win: "0 < FAILED_WINDOW_SECONDS cfg"
  shows "\<exists>w'. run_seq (\<lambda>(t, r). OTPVerifyView_post d cfg t r) reqs w
               = (Inr (replicate (length reqs) invalid_response), w')
      \<and> fails_bounded w' e (n + int (length reqs))
      \<and> (\<forall>k. k \<noteq> failed_key e \<longrightarrow> kv w' k = kv w k)
      \<and> users w' = users w"
  using reqs fb n0 lim
proof (induction reqs arbitrary: w n)
  case Nil
  then show ?case by (simp add: ret_def)
next
  case (Cons a reqs)
  obtain t r where a: "a = (t, r)" by (cases a)
  from Cons.prems(1) a obtain p where
    valid: "OTPVerifySerializer_is_valid d r = Inr (e, p)"
    and bad: "map_option fst (lookup t (kv w) (otp_key e)) \<noteq> Some p \<or> p = []"
    by auto
  from Cons.prems(4) have lim1: "n + 1 < FAILED_LIMIT cfg" by simp
  from verify_post_wrong [OF valid Cons.prems(2) Cons.prems(3) lim1 win bad]
  obtain w1 where
    step: "OTPVerifyView_post d cfg t r w = (Inr invalid_response, w1)"
    and fb1: "fails_bounded w1 e (n + 1)"
    and frame1: "\<forall>k. k \<noteq> failed_key e \<longrightarrow> kv w1 k = kv w k"
    and users1: "users w1 = users w"
    by blast
  from frame1 have same: "kv w1 (otp_key e) = kv w (otp_key e)"
    by (simp add: key_distinct)
  have reqs1: "\<forall>(t, r)\<in>set reqs. \<exists>p. OTPVerifySerializer_is_valid d r = Inr (e, p)
                    \<and> (map_option fst (lookup t (kv w1) (otp_key e)) \<noteq> Some p \<or> p = [])"
    using Cons.prems(1) lookup_cong [of "kv w1" "otp_key e" "kv w", OF same] by auto
  from Cons.prems(3) have n1: "0 \<le> n + 1" by simp
  from Cons.prems(4) have lim2: "n + 1 + int (length reqs) < FAILED_LIMIT cfg" by simp
  from Cons.IH [OF reqs1 fb1 n1 lim2] obtain w2 where
    rest: "run_seq (\<lambda>(t, r). OTPVerifyView_post d cfg t r) reqs w1
               = (Inr (replicate (length reqs) invalid_response), w2)"
    and fb2: "fails_bounded w2 e (n + 1 + int (length reqs))"
    and frame2: "\<forall>k. k \<noteq> failed_key e \<longrightarrow> kv w2 k = kv w1 k"
    and users2: "users w2 = users w1"
    by blast
  from step rest a have "run_seq (\<lambda>(t, r). OTPVerifyView_post d cfg t r) (a # reqs) w
               = (Inr (replicate (length (a # reqs)) invalid_response), w2)"
    by (simp add: and_then_def ret_def)
  moreover from fb2 have "fails_bounded w2 e (n + int (length (a # reqs)))"
    by (simp add: algebra_simps)
  moreover from frame1 frame2 have "\<forall>k. k \<noteq> failed_key e \<longrightarrow> kv w2 k = kv w k" by simp
  moreover from users1 users2 have "users w2 = users w" by simp
  ultimately show ?case by blast
qed

lemma verify_wrong_then_right:
  assumes otp: "lookup tg (kv w) (otp_key e) = Some (c, ex)" and ne: "c \<noteq> []"
      and bad: "\<forall>(t, r)\<in>set bad. \<exists>p. OTPVerifySerializer_is_valid d r = Inr (e, p) \<and> p \<noteq> c"
      and good: "OTPVerifySerializer_is_valid d good = Inr (e, c)"
      and fb: "fails_bounded w e n" and n0: "0 \<le> n"
      and lim: "n + int (length bad) < FAILED_LIMIT cfg"
      and win: "0 < FAILED_WINDOW_SECONDS cfg"
      and tab: "can_resolve w e"
  shows "\<exists>rs resp w'. run_seq (\<lambda>(t, r). OTPVerifyView_post d cfg t r) (bad @ [(tg, good)]) w
               = (Inr (rs @ [resp]), w')
      \<and> rs = replicate (length bad) invalid_response
      \<and> r_status resp = 201 \<and> r_success resp
      \<and> kv w' (otp_key e) = None \<and> kv w' (failed_key e) = None
      \<and> can_resolve w' e"
proof -
  from otp have stored: "kv w (otp_key e) = Some (c, ex)" by (rule lookup_Some_kv)
  have bad': "\<forall>(t, r)\<in>set bad. \<exists>p. OTPVerifySerializer_is_valid d r = Inr (e, p)
                    \<and> (map_option fst (lookup t (kv w) (otp_key e)) \<noteq> Some p \<or> p = [])"
  proof -
    have "map_option fst (lookup t (kv w) (otp_key e)) \<noteq> Some p" if "p \<noteq> c" for t p
      using that stored by (auto simp: lookup_def split: option.splits if_splits)
    with bad show ?thesis by fastforce
  qed
  from verify_wrong_run [OF bad' fb n0 lim win] obtain w1 where
    run1: "run_seq (\<lambda>(t, r). OTPVerifyView_post d cfg t r) bad w
               = (Inr (replicate (length bad) invalid_response), w1)"
    and fb1: "fails_bounded w1 e (n + int (length bad))"
    and frame1: "\<forall>k. k \<noteq> failed_key e \<longrightarrow> kv w1 k = kv w k"
    and users1: "users w1 = users w"
    by blast
  from frame1 have same: "kv w1 (otp_key e) = kv w (otp_key e)" by (simp add: key_distinct)
  from otp lookup_cong [of "kv w1" "otp_key e" "kv w", OF same] have otp1: "lookup tg (kv w1) (otp_key e) = Some (c, ex)"
    by simp
  from tab can_resolve_users [OF users1] have tab1: "can_resolve w1 e" by simp
  from verify_post_success [OF good fb1 lim otp1 ne tab1] obtain resp w2 where
    step: "OTPVerifyView_post d cfg tg good w1 = (Inr resp, w2)"
    and ok: "r_status resp = 201" "r_success resp"
    and kv2: "kv w2 = (kv w1)(otp_key e := None, failed_key e := None)"
    and tab2: "can_resolve w2 e"
    by blast
  from step have run2: "run_seq (\<lambda>(t, r). OTPVerifyView_post d cfg t r) [(tg, good)] w1
      = (Inr [resp], w2)"
    by (simp add: and_then_def ret_def)
  from run_seq_append [OF run1 run2] ok kv2 tab2 show ?thesis by simp
qed


section \<open>The email rate limit\<close>

text \<open>
  Claim C1. Take any email whose rate counter is absent or expired at time \<open>t0\<close>, and make
  calls of \<^verbatim>\<open>is_email_rate_limited\<close> at \<open>t0\<close> and then at any times before the window
  ends at \<open>t0 + 600\<close>. Under the default configuration the first 3 calls return
  \<open>(False, 0)\<close>; the 4th and every later call returns \<open>True\<close> with the time left until
  \<open>t0 + 600\<close>, which is positive; and the counter ends up holding the number of all calls
  made, the rejected ones included, still expiring at \<open>t0 + 600\<close>.
\<close>

theorem C1_email_rate_limit:
  assumes "lookup t0 (kv w) (email_rl_key e) = None"
      and "\<forall>t\<in>set ts. t < t0 + 600"
  shows "\<exists>rs w'.
      run_seq (\<lambda>t. is_email_rate_limited default_config t e) (t0 # ts) w = (Inr rs, w')
      \<and> length rs = Suc (length ts)
      \<and> (\<forall>i<length rs. i < 3 \<longrightarrow> rs ! i = (False, 0))
      \<and> (\<forall>i<length rs. 3 \<le> i \<longrightarrow>
            rs ! i = (True, t0 + 600 - (t0 # ts) ! i) \<and> 0 < t0 + 600 - (t0 # ts) ! i)
      \<and> kv w' (email_rl_key e) = Some (str_of_int (int (length rs)), Some (t0 + 600))"
proof -
  have win: "counter_window default_config (Email_rate e) = 600"
    by (simp add: default_config_def)
  obtain rs w' where
    run: "run_seq (\<lambda>t. is_email_rate_limited default_config t e) (t0 # ts) w = (Inr rs, w')"
    and len: "length rs = Suc (length ts)"
    and nth: "\<And>i. i < length rs \<Longrightarrow> rs ! i =
        (over_limit default_config (Email_rate e) (int i + 1),
         if over_limit default_config (Email_rate e) (int i + 1)
         then t0 + 600 - (t0 # ts) ! i else 0)"
    and cnt: "kv w' (email_rl_key e) = Some (str_of_int (int (length rs)), Some (t0 + 600))"
    using run_increment_window [of t0 w "Email_rate e" default_config ts] assms win
    by auto
  have lim: "over_limit default_config (Email_rate e) (int i + 1) = (3 \<le> i)" for i
    by (auto simp: default_config_def)
  have inside: "(t0 # ts) ! i < t0 + 600" if "i < length rs" for i
    using that len assms(2) by (cases i) auto
  have lo: "rs ! i = (False, 0)" if "i < length rs" "i < 3" for i
    using nth [OF that(1)] lim [of i] that(2) by simp
  have hi: "rs ! i = (True, t0 + 600 - (t0 # ts) ! i) \<and> 0 < t0 + 600 - (t0 # ts) ! i"
    if "i < length rs" "3 \<le> i" for i
  proof -
    define tm where "tm = (t0 # ts) ! i"
    from inside [OF that(1)] have "tm < t0 + 600" by (simp only: tm_def)
    moreover from nth [OF that(1)] lim [of i] that(2) have "rs ! i = (True, t0 + 600 - tm)"
      by (simp only: tm_def) simp
    ultimately show ?thesis by (simp only: tm_def [symmetric]) simp
  qed
  from lo hi have
    "\<forall>i<length rs. i < 3 \<longrightarrow> rs ! i = (False, 0)"
    "\<forall>i<length rs. 3 \<le> i \<longrightarrow>
       rs ! i = (True, t0 + 600 - (t0 # ts) ! i) \<and> 0 < t0 + 600 - (t0 # ts) ! i"
    by blast+
  with run len cnt show ?thesis by blast
qed

theorem C1_email_rate_limit_witness:
  "\<exists>rs w'.
      run_seq (\<lambda>t. is_email_rate_limited default_config t ''a@x.com'') [0, 10, 20, 30, 599] world0
        = (Inr rs, w')
      \<and> length rs = 5
      \<and> rs ! 0 = (False, 0) \<and> rs ! 2 = (False, 0) \<and> rs ! 3 = (True, 570) \<and> rs ! 4 = (True, 1)
      \<and> kv w' (email_rl_key ''a@x.com'') = Some (str_of_int 5, Some 600)"
proof -
  have fresh: "lookup 0 (kv world0) (email_rl_key ''a@x.com'') = None"
    by (simp add: world0_def lookup_def)
  have inside: "\<forall>t\<in>set [10, 20, 30, 599 :: int]. t < 0 + 600"
    by simp
  from C1_email_rate_limit [OF fresh inside] obtain rs w' where
    run: "run_seq (\<lambda>t. is_email_rate_limited default_config t ''a@x.com'') [0, 10, 20, 30, 599] world0
        = (Inr rs, w')"
    and len: "length rs = 5"
    and lo: "\<forall>i<length rs. i < 3 \<longrightarrow> rs ! i = (False, 0)"
    and hi: "\<forall>i<length rs. 3 \<le> i \<longrightarrow>
       rs ! i = (True, 0 + 600 - (0 # [10, 20, 30, 599]) ! i) \<and> 0 < 0 + 600 - (0 # [10, 20, 30, 599 :: int]) ! i"
    and cnt: "kv w' (email_rl_key ''a@x.com'') = Some (str_of_int (int (length rs)), Some (0 + 600))"
    by auto
  from lo len have "rs ! 0 = (False, 0)" "rs ! 2 = (False, 0)" by simp_all
  moreover from hi len have "rs ! 3 = (True, 570)" "rs ! 4 = (True, 1)" by simp_all
  moreover from cnt len have "kv w' (email_rl_key ''a@x.com'') = Some (str_of_int 5, Some 600)"
    by simp
  ultimately show ?thesis using run len by blast
qed


section \<open>The failed-attempt counter\<close>

text \<open>
  Claim C2. Take any identity whose failed-attempt counter is absent or expired at time
  \<open>t0\<close>, and record failures with \<^verbatim>\<open>track_failed_attempt\<close> at \<open>t0\<close> and then at any
  times before the window ends at \<open>t0 + 900\<close>. Under the default configuration the call
  that brings the count to \<open>i + 1\<close> reports locked exactly when \<open>5 \<le> i + 1\<close>: the first
  four calls return \<open>(False, 0)\<close>, the fifth and every later one \<open>True\<close> with the time
  left in the window.
\<close>

theorem C2_failed_attempt_lock:
  assumes "lookup t0 (kv w) (failed_key e) = None"
      and "\<forall>t\<in>set ts. t < t0 + 900"
  shows "\<exists>rs w'.
      run_seq (\<lambda>t. track_failed_attempt default_config t e) (t0 # ts) w = (Inr rs, w')
      \<and> length rs = Suc (length ts)
      \<and> (\<forall>i<length rs. fst (rs ! i) = (5 \<le> i + 1))
      \<and> (\<forall>i<length rs. i + 1 < 5 \<longrightarrow> rs ! i = (False, 0))
      \<and> (\<forall>i<length rs. 5 \<le> i + 1 \<longrightarrow> rs ! i = (True, t0 + 900 - (t0 # ts) ! i))
      \<and> kv w' (failed_key e) = Some (str_of_int (int (length rs)), Some (t0 + 900))"
proof -
  have win: "counter_window default_config (Failed_attempts e) = 900"
    by (simp add: default_config_def)
  obtain rs w' where
    run: "run_seq (\<lambda>t. track_failed_attempt default_config t e) (t0 # ts) w = (Inr rs, w')"
    and len: "length rs = Suc (length ts)"
    and nth: "\<And>i. i < length rs \<Longrightarrow> rs ! i =
        (over_limit default_config (Failed_attempts e) (int i + 1),
         if over_limit default_config (Failed_attempts e) (int i + 1)
         then t0 + 900 - (t0 # ts) ! i else 0)"
    and cnt: "kv w' (failed_key e) = Some (str_of_int (int (length rs)), Some (t0 + 900))"
    using run_increment_window [of t0 w "Failed_attempts e" default_config ts] assms win
    by auto
  have lim: "over_limit default_config (Failed_attempts e) (int i + 1) = (5 \<le> i + 1)" for i
    by (auto simp: default_config_def)
  have a: "fst (rs ! i) = (5 \<le> i + 1)" if "i < length rs" for i
    using nth [OF that] lim [of i] by simp
  have lo: "rs ! i = (False, 0)" if "i < length rs" "i + 1 < 5" for i
    using nth [OF that(1)] lim [of i] that(2) by simp
  have hi: "rs ! i = (True, t0 + 900 - (t0 # ts) ! i)" if "i < length rs" "5 \<le> i + 1" for i
  proof -
    define tm where "tm = (t0 # ts) ! i"
    from nth [OF that(1)] lim [of i] that(2) have "rs ! i = (True, t0 + 900 - tm)"
      by (simp only: tm_def) simp
    then show ?thesis by (simp only: tm_def [symmetric])
  qed
  from a lo hi have
    "\<forall>i<length rs. fst (rs ! i) = (5 \<le> i + 1)"
    "\<forall>i<length rs. i + 1 < 5 \<longrightarrow> rs ! i = (False, 0)"
    "\<forall>i<length rs. 5 \<le> i + 1 \<longrightarrow> rs ! i = (True, t0 + 900 - (t0 # ts) ! i)"
    by blast+
  with run len cnt show ?thesis by blast
qed

theorem C2_failed_attempt_lock_witness:
  "\<exists>rs w'.
      run_seq (\<lambda>t. track_failed_attempt default_config t ''a@x.com'') [0, 1, 2, 3, 4, 5] world0
        = (Inr rs, w')
      \<and> rs ! 0 = (False, 0) \<and> rs ! 3 = (False, 0) \<and> rs ! 4 = (True, 896) \<and> rs ! 5 = (True, 895)"
proof -
  have fresh: "lookup 0 (kv world0) (failed_key ''a@x.com'') = None"
    by (simp add: world0_def lookup_def)
  have inside: "\<forall>t\<in>set [1, 2, 3, 4, 5 :: int]. t < 0 + 900"
    by simp
  from C2_failed_attempt_lock [OF fresh inside] obtain rs w' where
    run: "run_seq (\<lambda>t. track_failed_attempt default_config t ''a@x.com'') [0, 1, 2, 3, 4, 5] world0
        = (Inr rs, w')"
    and len: "length rs = 6"
    and lo: "\<forall>i<length rs. i + 1 < 5 \<longrightarrow> rs ! i = (False, 0)"
    and hi: "\<forall>i<length rs. 5 \<le> i + 1 \<longrightarrow>
       rs ! i = (True, 0 + 900 - (0 # [1, 2, 3, 4, 5]) ! i)"
    by auto
  from lo len have "rs ! 0 = (False, 0)" "rs ! 3 = (False, 0)" by simp_all
  moreover from hi len have "rs ! 4 = (True, 896)" "rs ! 5 = (True, 895)" by simp_all
  ultimately show ?thesis using run by blast
qed


section \<open>One increment of a well-formed counter\<close>

lemma count_at_absent: "lookup now (kv w) k = None \<Longrightarrow> count_at now w k = 0"
  by (simp add: count_at_def)

lemma counter_wf_cases:
  assumes "counter_wf now w k"
  obtains (absent) "lookup now (kv w) k = None"
        | (present) c x where "lookup now (kv w) k = Some (str_of_int c, Some x)" "1 \<le> c"
  using assms
  by (auto simp: counter_wf_def split: option.splits)

lemma increment_step:
  assumes wf: "counter_wf now w (counter_key ctr)"
      and win: "0 < counter_window cfg ctr"
  shows "\<exists>r w' x.
      increment cfg now ctr w = (Inr r, w')
      \<and> expiry_at now w' (counter_key ctr) = Some x
      \<and> (\<forall>t. t < x \<longrightarrow> count_at t w' (counter_key ctr) = count_at now w (counter_key ctr) + 1
                       \<and> expiry_at t w' (counter_key ctr) = Some x)
      \<and> (count_at now w (counter_key ctr) = 0 \<longrightarrow> x = now + counter_window cfg ctr)
      \<and> (count_at now w (counter_key ctr) \<noteq> 0 \<longrightarrow> expiry_at now w (counter_key ctr) = Some x)
      \<and> (EXPIRE (counter_key ctr) (counter_window cfg ctr) \<in> set (sent_since w w'))
           = (count_at now w (counter_key ctr) + 1 = 1)
      \<and> counter_wf now w' (counter_key ctr)"
  using wf
proof (cases rule: counter_wf_cases)
  case absent
  let ?k = "counter_key ctr" and ?W = "counter_window cfg ctr"
  let ?w' = "w\<lparr>kv := (kv w)(?k \<mapsto> (''1'', Some (now + ?W))),
       cmds := cmds w @ INCR ?k # EXPIRE ?k ?W
                 # (if over_limit cfg ctr 1 then [TTL ?k] else [])\<rparr>"
  have step: "increment cfg now ctr w =
      (Inr (over_limit cfg ctr 1, if over_limit cfg ctr 1 then ?W else 0), ?w')"
    by (rule increment_first [OF absent win])
  have c0: "count_at now w ?k = 0" using absent by (simp add: count_at_def)
  have one: "int_of_str ''1'' = Some 1"
    using int_of_str_str_of_int [of 1] by (simp add: str_of_int_1)
  have ex: "expiry_at t ?w' ?k = Some (now + ?W)" if "t < now + ?W" for t
    using that by (simp add: expiry_at_def lookup_simps)
  have cnt: "count_at t ?w' ?k = 1" if "t < now + ?W" for t
    using that one by (simp add: count_at_def lookup_simps)
  have wf': "counter_wf now ?w' ?k"
    using win one by (simp add: counter_wf_def lookup_simps str_of_int_1)
  have sent: "EXPIRE ?k ?W \<in> set (sent_since w ?w')"
    by (simp add: sent_since_def)
  from win have "now < now + ?W" by simp
  from ex [OF this] ex cnt c0 wf' sent step show ?thesis
    by (intro exI [of _ "(over_limit cfg ctr 1, if over_limit cfg ctr 1 then ?W else 0)"]
          exI [of _ ?w'] exI [of _ "now + ?W"]) simp
next
  case (present c x)
  let ?k = "counter_key ctr" and ?W = "counter_window cfg ctr"
  let ?r = "(over_limit cfg ctr (c + 1), if over_limit cfg ctr (c + 1) then x - now else 0)"
  let ?w' = "w\<lparr>kv := (kv w)(?k \<mapsto> (str_of_int (c + 1), Some x)),
       cmds := cmds w @ INCR ?k
                 # (if over_limit cfg ctr (c + 1) then [TTL ?k] else [])\<rparr>"
  have step: "increment cfg now ctr w = (Inr ?r, ?w')"
    by (rule increment_next [OF present])
  have live: "now < x" by (rule lookup_live [OF present(1)])
  have c0: "count_at now w ?k = c" using present by (simp add: count_at_def int_of_str_str_of_int)
  have e0: "expiry_at now w ?k = Some x" using present by (simp add: expiry_at_def)
  have ex: "expiry_at t ?w' ?k = Some x" if "t < x" for t
    using that by (simp add: expiry_at_def lookup_simps)
  have cnt: "count_at t ?w' ?k = c + 1" if "t < x" for t
    using that by (simp add: count_at_def lookup_simps int_of_str_str_of_int)
  have wf': "counter_wf now ?w' ?k"
    using live present(2) by (simp add: counter_wf_def lookup_simps int_of_str_str_of_int)
  have sent: "EXPIRE ?k ?W \<notin> set (sent_since w ?w')"
    by (simp add: sent_since_def)
  from ex [OF live] ex cnt c0 e0 wf' sent step present(2) show ?thesis
    by (intro exI [of _ ?r] exI [of _ ?w'] exI [of _ x]) simp
qed


section \<open>Verification: lockout, one-time use, failed attempts\<close>

subsection \<open>The example requests and world\<close>

lemma valid0:
  "OTPVerifySerializer_is_valid deps0 (request0 ''A@x.com'' ''123456'') = Inr (''a@x.com'', ''123456'')"
  "OTPVerifySerializer_is_valid deps0 (request0 ''a@x.com'' ''000000'') = Inr (''a@x.com'', ''000000'')"
  by code_simp+

lemma fixture_facts:
  "lookup 10 (kv world1) (otp_key ''a@x.com'') = Some (''123456'', Some 300)"
  "kv world1 (otp_key ''a@x.com'') = Some (''123456'', Some 300)"
  "kv world1 (failed_key ''a@x.com'') = None"
  "fails_bounded world1 ''a@x.com'' 0"
  "can_resolve world1 ''a@x.com''"
  "0 < FAILED_WINDOW_SECONDS default_config"
  by (simp_all add: world1_def world0_def lookup_def fails_bounded_def can_resolve_def
      default_config_def key_distinct)

subsection \<open>A locked identity\<close>

text \<open>
  Claim C3. Take a valid verify request for identity \<open>e\<close> with any presented code, at a
  time when the failed-attempt counter of \<open>e\<close> is present (inside its window, ending at
  \<open>x\<close>) and holds a count at or above the threshold. The view returns the 423 locked
  response with the remaining \<open>x - now\<close> seconds; the store is unchanged, and the only
  commands sent are the \<^verbatim>\<open>GET\<close> and the \<^verbatim>\<open>TTL\<close> of the failed-attempt key: the stored
  code is neither read nor deleted and the counter is not incremented. The presented code
  is arbitrary, so this holds when it is the stored one.
\<close>

theorem C3_locked_before_otp:
  assumes valid: "OTPVerifySerializer_is_valid d request = Inr (e, p)"
      and cnt: "lookup now (kv w) (failed_key e) = Some (str_of_int c, Some x)"
      and lim: "FAILED_LIMIT cfg \<le> c"
  shows "\<exists>w'. OTPVerifyView_post d cfg now request w = (Inr (locked_response (x - now)), w')
      \<and> r_status (locked_response (x - now)) = 423
      \<and> kv w' = kv w
      \<and> sent_since w w' = [GET (failed_key e), TTL (failed_key e)]
      \<and> GET (otp_key e) \<notin> set (sent_since w w')
      \<and> DEL (otp_key e) \<notin> set (sent_since w w')
      \<and> INCR (failed_key e) \<notin> set (sent_since w w')"
  using verify_post_locked [OF valid cnt lim]
  by (simp add: sent_since_def locked_response_def key_distinct)

theorem C3_locked_before_otp_witness:
  "\<exists>w'. OTPVerifyView_post deps0 default_config 100 (request0 ''A@x.com'' ''123456'')
           (world1\<lparr>kv := (kv world1)(failed_key ''a@x.com'' \<mapsto> (str_of_int 5, Some 400))\<rparr>)
         = (Inr (locked_response 300), w')
      \<and> kv w' (otp_key ''a@x.com'') = Some (''123456'', Some 300)"
proof -
  let ?w = "world1\<lparr>kv := (kv world1)(failed_key ''a@x.com'' \<mapsto> (str_of_int 5, Some 400))\<rparr>"
  have cnt: "lookup 100 (kv ?w) (failed_key ''a@x.com'') = Some (str_of_int 5, Some 400)"
    by (simp add: lookup_def)
  have lim: "FAILED_LIMIT default_config \<le> 5"
    by (simp add: default_config_def)
  have otp: "kv ?w (otp_key ''a@x.com'') = Some (''123456'', Some 300)"
    by (simp add: world1_def key_distinct)
  from C3_locked_before_otp [OF valid0(1) cnt lim] otp show ?thesis
    by auto
qed

subsection \<open>One-time use\<close>

text \<open>
  Claim C4. For every identity whose stored code \<open>c\<close> is present at time \<open>now\<close> (a code
  is a non-empty string), \<^verbatim>\<open>verify_otp\<close> with exactly \<open>c\<close> returns true and deletes
  the record; in the world it leaves, every verification for that identity, at any time and
  with any code (the same one included), returns false.
\<close>

theorem C4_one_time_use:
  assumes "lookup now (kv w) (otp_key e) = Some (c, ex)" and "c \<noteq> []"
  shows "\<exists>w'. verify_otp now e c w = (Inr True, w')
      \<and> kv w' (otp_key e) = None
      \<and> DEL (otp_key e) \<in> set (sent_since w w')
      \<and> (\<forall>t p. fst (verify_otp t e p w') = Inr False)"
proof -
  let ?w' = "w\<lparr>kv := (kv w)(otp_key e := None),
               cmds := cmds w @ [GET (otp_key e), DEL (otp_key e)]\<rparr>"
  have "verify_otp now e c w = (Inr True, ?w')"
    by (rule verify_otp_match [OF assms])
  moreover have "fst (verify_otp t e p ?w') = Inr False" for t p
    using verify_otp_mismatch [of t ?w' e p] by (simp add: lookup_def)
  ultimately show ?thesis
    by (intro exI [of _ ?w']) (simp add: sent_since_def)
qed

theorem C4_one_time_use_witness:
  "\<exists>w'. verify_otp 10 ''a@x.com'' ''123456'' world1 = (Inr True, w')
      \<and> fst (verify_otp 10 ''a@x.com'' ''123456'' w') = Inr False"
proof -
  have "lookup 10 (kv world1) (otp_key ''a@x.com'') = Some (''123456'', Some 300)"
    by (simp add: world1_def lookup_def)
  from C4_one_time_use [OF this] show ?thesis by auto
qed

subsection \<open>Wrong codes do not burn the stored code\<close>

lemma verify_otp_wrong_run:
  assumes "\<forall>(t, p)\<in>set attempts. p \<noteq> c" and "kv w (otp_key e) = Some (c, ex)"
  shows "\<exists>w'. run_seq (\<lambda>(t, p). verify_otp t e p) attempts w
             = (Inr (replicate (length attempts) False), w')
      \<and> kv w' = kv w"
  using assms
proof (induction attempts arbitrary: w)
  case Nil
  then show ?case by (simp add: ret_def)
next
  case (Cons a attempts)
  obtain t p where a: "a = (t, p)" by (cases a)
  with Cons.prems have "p \<noteq> c" by simp
  with Cons.prems(2) have "map_option fst (lookup t (kv w) (otp_key e)) \<noteq> Some p"
    by (auto simp: lookup_def split: option.splits if_splits)
  then have step: "verify_otp t e p w = (Inr False, w\<lparr>cmds := cmds w @ [GET (otp_key e)]\<rparr>)"
    by (intro verify_otp_mismatch) simp
  let ?w1 = "w\<lparr>cmds := cmds w @ [GET (otp_key e)]\<rparr>"
  from Cons.prems have "\<forall>(t, p)\<in>set attempts. p \<noteq> c" "kv ?w1 (otp_key e) = Some (c, ex)"
    by simp_all
  from Cons.IH [OF this] obtain w2 where
    "run_seq (\<lambda>(t, p). verify_otp t e p) attempts ?w1
       = (Inr (replicate (length attempts) False), w2)" "kv w2 = kv ?w1"
    by blast
  with step a show ?case by (simp add: and_then_def ret_def)
qed

text \<open>
  Claim C5. Let the code \<open>c\<close> be stored for identity \<open>e\<close> and present at time \<open>now\<close>.
  Any number of calls of \<^verbatim>\<open>verify_otp\<close> with codes other than \<open>c\<close>, at any times, all
  return false and leave the whole keyspace as it was, and \<^verbatim>\<open>verify_otp\<close> with \<open>c\<close> at
  \<open>now\<close> then returns true. Through the view: when the failure count plus the number of
  wrong requests stays below the threshold, every wrong request is answered 400 and the
  request with \<open>c\<close> at \<open>now\<close> is answered 201.
\<close>

theorem C5_wrong_code_keeps_otp:
  assumes stored: "lookup now (kv w) (otp_key e) = Some (c, ex)" and ne: "c \<noteq> []"
      and wrong: "\<forall>(t, p)\<in>set attempts. p \<noteq> c"
      and bad: "\<forall>(t, r)\<in>set bad. \<exists>p. OTPVerifySerializer_is_valid d r = Inr (e, p) \<and> p \<noteq> c"
      and good: "OTPVerifySerializer_is_valid d good = Inr (e, c)"
      and below: "fails_bounded w e n" "0 \<le> n" "n + int (length bad) < FAILED_LIMIT cfg"
      and win: "0 < FAILED_WINDOW_SECONDS cfg"
      and tab: "can_resolve w e"
  shows "(\<exists>w1 w2. run_seq (\<lambda>(t, p). verify_otp t e p) attempts w
                    = (Inr (replicate (length attempts) False), w1)
            \<and> kv w1 = kv w
            \<and> verify_otp now e c w1 = (Inr True, w2))
      \<and> (\<exists>rs resp w'. run_seq (\<lambda>(t, r). OTPVerifyView_post d cfg t r) (bad @ [(now, good)]) w
                    = (Inr (rs @ [resp]), w')
            \<and> map r_status rs = replicate (length bad) 400
            \<and> r_status resp = 201 \<and> r_success resp)"
proof
  from stored have kvs: "kv w (otp_key e) = Some (c, ex)" by (rule lookup_Some_kv)
  from verify_otp_wrong_run [OF wrong kvs] obtain w1 where
    run: "run_seq (\<lambda>(t, p). verify_otp t e p) attempts w
             = (Inr (replicate (length attempts) False), w1)"
    and same: "kv w1 = kv w"
    by blast
  from stored same have "lookup now (kv w1) (otp_key e) = Some (c, ex)" by simp
  from verify_otp_match [OF this ne] run same
  show "\<exists>w1 w2. run_seq (\<lambda>(t, p). verify_otp t e p) attempts w
                    = (Inr (replicate (length attempts) False), w1)
            \<and> kv w1 = kv w
            \<and> verify_otp now e c w1 = (Inr True, w2)"
    by blast
next
  from verify_wrong_then_right [OF stored ne bad good below win tab]
  obtain rs resp w' where
    run: "run_seq (\<lambda>(t, r). OTPVerifyView_post d cfg t r) (bad @ [(now, good)]) w
               = (Inr (rs @ [resp]), w')"
    and rs: "rs = replicate (length bad) invalid_response"
    and ok: "r_status resp = 201" "r_success resp"
    by blast
  from rs have "map r_status rs = replicate (length bad) 400"
    by (simp add: invalid_response_def)
  with run ok
  show "\<exists>rs resp w'. run_seq (\<lambda>(t, r). OTPVerifyView_post d cfg t r) (bad @ [(now, good)]) w
                    = (Inr (rs @ [resp]), w')
            \<and> map r_status rs = replicate (length bad) 400
            \<and> r_status resp = 201 \<and> r_success resp"
    by blast
qed

theorem C5_wrong_code_keeps_otp_witness:
  "(\<exists>w1 w2. run_seq (\<lambda>(t, p). verify_otp t ''a@x.com'' p) [(1, ''000000''), (2, ''654321'')] world1
                    = (Inr [False, False], w1)
            \<and> verify_otp 10 ''a@x.com'' ''123456'' w1 = (Inr True, w2))
   \<and> (\<exists>rs resp w'. run_seq (\<lambda>(t, r). OTPVerifyView_post deps0 default_config t r)
                      [(1, request0 ''a@x.com'' ''000000''), (2, request0 ''a@x.com'' ''000000''),
                       (10, request0 ''A@x.com'' ''123456'')] world1
                    = (Inr (rs @ [resp]), w')
            \<and> map r_status rs = [400, 400] \<and> r_status resp = 201)"
proof -
  have wrong: "\<forall>(t, p)\<in>set [(1 :: int, ''000000''), (2, ''654321'')]. p \<noteq> ''123456''"
    by simp
  have bad: "\<forall>(t, r)\<in>set [(1 :: int, request0 ''a@x.com'' ''000000''),
                             (2, request0 ''a@x.com'' ''000000'')].
      \<exists>p. OTPVerifySerializer_is_valid deps0 r = Inr (''a@x.com'', p) \<and> p \<noteq> ''123456''"
    by (simp add: valid0)
  have lim: "0 + int (length [(1 :: int, request0 ''a@x.com'' ''000000''),
                             (2, request0 ''a@x.com'' ''000000'')]) < FAILED_LIMIT default_config"
    by (simp add: default_config_def)
  have ne: "''123456'' \<noteq> []" by simp
  have n0: "(0 :: int) \<le> 0" by simp
  from C5_wrong_code_keeps_otp [OF fixture_facts(1) ne wrong bad valid0(1) fixture_facts(4) n0 lim
      fixture_facts(6) fixture_facts(5)]
  show ?thesis by (auto simp: numeral_2_eq_2 simp del: run_seq.simps)
qed

subsection \<open>A success clears the failure counter\<close>

text \<open>
  Claim C6. Whenever the verify view answers 201, the failed-attempt key of the verified
  identity is unset in the resulting store and its \<^verbatim>\<open>DEL\<close> is among the commands the
  request sent. Under the default configuration, starting without a failure counter: up to
  4 requests with wrong codes, then the request with the stored code (present at that
  time), then up to 4 more requests for the identity are answered 400 (each), 201, and 400
  (each); no response is 423.
\<close>

theorem C6_success_clears_failures:
  assumes otp: "lookup tg (kv w) (otp_key e) = Some (c, ex)" and ne: "c \<noteq> []"
      and fresh: "kv w (failed_key e) = None"
      and bad1: "\<forall>(t, r)\<in>set bad1. \<exists>p. OTPVerifySerializer_is_valid d r = Inr (e, p) \<and> p \<noteq> c"
      and good: "OTPVerifySerializer_is_valid d good = Inr (e, c)"
      and bad2: "\<forall>(t, r)\<in>set bad2. \<exists>p. OTPVerifySerializer_is_valid d r = Inr (e, p)"
      and len1: "length bad1 \<le> 4" and len2: "length bad2 \<le> 4"
      and tab: "can_resolve w e"
  shows "(\<forall>request t w0 resp w1 e' p.
            OTPVerifySerializer_is_valid d request = Inr (e', p)
            \<and> OTPVerifyView_post d cfg t request w0 = (Inr resp, w1) \<and> r_status resp = 201
            \<longrightarrow> kv w1 (failed_key e') = None \<and> DEL (failed_key e') \<in> set (sent_since w0 w1))
      \<and> (\<exists>rs w'. run_seq (\<lambda>(t, r). OTPVerifyView_post d default_config t r)
                      (bad1 @ (tg, good) # bad2) w = (Inr rs, w')
            \<and> map r_status rs = replicate (length bad1) 400 @ 201 # replicate (length bad2) 400
            \<and> 423 \<notin> set (map r_status rs))"
proof
  show "\<forall>request t w0 resp w1 e' p.
            OTPVerifySerializer_is_valid d request = Inr (e', p)
            \<and> OTPVerifyView_post d cfg t request w0 = (Inr resp, w1) \<and> r_status resp = 201
            \<longrightarrow> kv w1 (failed_key e') = None \<and> DEL (failed_key e') \<in> set (sent_since w0 w1)"
    using verify_post_201 by blast
next
  let ?run = "run_seq (\<lambda>(t, r). OTPVerifyView_post d default_config t r)"
  have win: "0 < FAILED_WINDOW_SECONDS default_config" by (simp add: default_config_def)
  have fb: "fails_bounded w e 0" using fresh by (rule fails_bounded_unset)
  have lim1: "0 + int (length bad1) < FAILED_LIMIT default_config"
    using len1 by (simp add: default_config_def)
  have lim2: "0 + int (length bad2) < FAILED_LIMIT default_config"
    using len2 by (simp add: default_config_def)
  have n0: "(0 :: int) \<le> 0" by simp
  from verify_wrong_then_right [OF otp ne bad1 good fb n0 lim1 win tab]
  obtain rs1 resp w1 where
    run1: "?run (bad1 @ [(tg, good)]) w = (Inr (rs1 @ [resp]), w1)"
    and rs1: "rs1 = replicate (length bad1) invalid_response"
    and ok: "r_status resp = 201"
    and gone: "kv w1 (otp_key e) = None" and cleared: "kv w1 (failed_key e) = None"
    by blast
  have bad2': "\<forall>(t, r)\<in>set bad2. \<exists>p. OTPVerifySerializer_is_valid d r = Inr (e, p)
                    \<and> (map_option fst (lookup t (kv w1) (otp_key e)) \<noteq> Some p \<or> p = [])"
    using bad2 gone by (fastforce simp: lookup_def)
  have fb1: "fails_bounded w1 e 0" using cleared by (rule fails_bounded_unset)
  from verify_wrong_run [OF bad2' fb1 n0 lim2 win] obtain w2 where
    run2: "?run bad2 w1 = (Inr (replicate (length bad2) invalid_response), w2)"
    by blast
  let ?rs = "(rs1 @ [resp]) @ replicate (length bad2) invalid_response"
  from run_seq_append [OF run1 run2] have run: "?run (bad1 @ (tg, good) # bad2) w = (Inr ?rs, w2)"
    by simp
  from rs1 ok have st: "map r_status ?rs
      = replicate (length bad1) 400 @ 201 # replicate (length bad2) 400"
    by (simp add: invalid_response_def)
  then have "423 \<notin> set (map r_status ?rs)" by (simp only: st) auto
  with run st
  show "\<exists>rs w'. ?run (bad1 @ (tg, good) # bad2) w = (Inr rs, w')
            \<and> map r_status rs = replicate (length bad1) 400 @ 201 # replicate (length bad2) 400
            \<and> 423 \<notin> set (map r_status rs)"
    by blast
qed

theorem C6_success_clears_failures_witness:
  "\<exists>rs w'. run_seq (\<lambda>(t, r). OTPVerifyView_post deps0 default_config t r)
      ([(1, request0 ''a@x.com'' ''000000''), (2, request0 ''a@x.com'' ''000000''),
        (3, request0 ''a@x.com'' ''000000''), (4, request0 ''a@x.com'' ''000000'')]
       @ (10, request0 ''A@x.com'' ''123456'')
       # [(11, request0 ''a@x.com'' ''000000''), (12, request0 ''A@x.com'' ''123456''),
          (13, request0 ''a@x.com'' ''000000''), (14, request0 ''a@x.com'' ''000000'')]) world1
      = (Inr rs, w')
    \<and> map r_status rs = [400, 400, 400, 400, 201, 400, 400, 400, 400]"
proof -
  let ?bad1 = "[(1 :: int, request0 ''a@x.com'' ''000000''), (2, request0 ''a@x.com'' ''000000''),
        (3, request0 ''a@x.com'' ''000000''), (4, request0 ''a@x.com'' ''000000'')]"
  let ?bad2 = "[(11 :: int, request0 ''a@x.com'' ''000000''), (12, request0 ''A@x.com'' ''123456''),
          (13, request0 ''a@x.com'' ''000000''), (14, request0 ''a@x.com'' ''000000'')]"
  have bad1: "\<forall>(t, r)\<in>set ?bad1.
      \<exists>p. OTPVerifySerializer_is_valid deps0 r = Inr (''a@x.com'', p) \<and> p \<noteq> ''123456''"
    by (simp add: valid0)
  have bad2: "\<forall>(t, r)\<in>set ?bad2.
      \<exists>p. OTPVerifySerializer_is_valid deps0 r = Inr (''a@x.com'', p)"
    by (simp add: valid0)
  have ne: "''123456'' \<noteq> []" by simp
  have len: "length ?bad1 \<le> 4" "length ?bad2 \<le> 4" by simp_all
  from C6_success_clears_failures [OF fixture_facts(1) ne fixture_facts(3) bad1 valid0(1) bad2
      len fixture_facts(5)]
  have "\<exists>rs w'. run_seq (\<lambda>(t, r). OTPVerifyView_post deps0 default_config t r)
          (?bad1 @ (10, request0 ''A@x.com'' ''123456'') # ?bad2) world1 = (Inr rs, w')
        \<and> map r_status rs
            = replicate (length ?bad1) 400 @ 201 # replicate (length ?bad2) 400
        \<and> 423 \<notin> set (map r_status rs)"
    by (rule conjunct2)
  then obtain rs w' where
    run: "run_seq (\<lambda>(t, r). OTPVerifyView_post deps0 default_config t r)
          (?bad1 @ (10, request0 ''A@x.com'' ''123456'') # ?bad2) world1 = (Inr rs, w')"
    and st: "map r_status rs = replicate (length ?bad1) 400 @ 201 # replicate (length ?bad2) 400"
    by blast
  have "replicate (length ?bad1) (400 :: nat) @ 201 # replicate (length ?bad2) 400
      = [400, 400, 400, 400, 201, 400, 400, 400, 400]"
    by (simp add: numeral_eq_Suc)
  with st have st': "map r_status rs = [400, 400, 400, 400, 201, 400, 400, 400, 400]" by simp
  show ?thesis
    by (rule exI [of _ rs], rule exI [of _ w'], rule conjI [OF run st'])
qed


section \<open>Rate-limited OTP requests\<close>

subsection \<open>What an increment can touch\<close>

lemma and_thenE:
  assumes "and_then m f w = (r, w')"
  obtains (err) e where "m w = (Inl e, w')" "r = Inl e"
        | (ok) x w1 where "m w = (Inr x, w1)" "f x w1 = (r, w')"
  using assms
  by (auto simp: and_then_def split: prod.splits sum.splits)

lemma touches_only_refl: "touches_only k w w"
  by (simp add: touches_only_def)

lemma touches_only_trans:
  assumes "touches_only k w w1" "touches_only k w1 w2"
  shows "touches_only k w w2"
proof -
  from assms(1) obtain cs1 where 1: "cmds w1 = cmds w @ cs1" "\<forall>k' s v. SETEX k' s v \<notin> set cs1"
    by (auto simp: touches_only_def)
  from assms(2) obtain cs2 where 2: "cmds w2 = cmds w1 @ cs2" "\<forall>k' s v. SETEX k' s v \<notin> set cs2"
    by (auto simp: touches_only_def)
  from 1 2 have "cmds w2 = cmds w @ (cs1 @ cs2)" "\<forall>k' s v. SETEX k' s v \<notin> set (cs1 @ cs2)"
    by simp_all
  then have "\<exists>cs. cmds w2 = cmds w @ cs \<and> (\<forall>k' s v. SETEX k' s v \<notin> set cs)" by blast
  with assms show ?thesis by (simp add: touches_only_def)
qed

lemma redis_incr_frame: "redis_incr now k w = (r, w') \<Longrightarrow> touches_only k w w'"
  by (auto simp: redis_incr_def store_defs touches_only_def split: option.splits)

lemma redis_expire_frame: "redis_expire now k secs w = (r, w') \<Longrightarrow> touches_only k w w'"
  by (auto simp: redis_expire_def store_defs touches_only_def split: option.splits if_splits)

lemma redis_ttl_frame: "redis_ttl now k w = (r, w') \<Longrightarrow> touches_only k w w'"
  by (auto simp: redis_ttl_def store_defs touches_only_def split: option.splits)

lemma ret_frame: "ret x w = (r, w') \<Longrightarrow> touches_only k w w'"
  by (auto simp: ret_def touches_only_def)

lemma bump_frame:
  assumes "and_then (redis_incr now k) (\<lambda>current.
           and_then (if current = 1 then redis_expire now k W else ret False) (\<lambda>_.
             if P current then and_then (redis_ttl now k) (\<lambda>ttl. ret (True, ttl))
             else ret (False, 0))) w = (r, w')"
  shows "touches_only k w w'"
  using assms
proof (cases rule: and_thenE)
  case (err e)
  then show ?thesis by (simp add: redis_incr_frame)
next
  case (ok current w1)
  from ok(1) have f1: "touches_only k w w1" by (rule redis_incr_frame)
  from ok(2) show ?thesis
  proof (cases rule: and_thenE)
    case (err e)
    then have "touches_only k w1 w'"
      by (auto simp: redis_expire_frame ret_frame split: if_splits)
    with f1 show ?thesis by (rule touches_only_trans)
  next
    case (ok b w2)
    from ok(1) have f2: "touches_only k w1 w2"
      by (auto simp: redis_expire_frame ret_frame split: if_splits)
    have "touches_only k w2 w'"
    proof (cases "P current")
      case True
      with ok(2) have "and_then (redis_ttl now k) (\<lambda>ttl. ret (True, ttl)) w2 = (r, w')" by simp
      then show ?thesis
      proof (cases rule: and_thenE)
        case (err e)
        then show ?thesis by (simp add: redis_ttl_frame)
      next
        case (ok ttl w3)
        from ok(1) have "touches_only k w2 w3" by (rule redis_ttl_frame)
        moreover from ok(2) have "touches_only k w3 w'" by (rule ret_frame)
        ultimately show ?thesis by (rule touches_only_trans)
      qed
    next
      case False
      with ok(2) show ?thesis by (simp add: ret_frame)
    qed
    with touches_only_trans [OF f1 f2] show ?thesis by (rule touches_only_trans)
  qed
qed

lemma increment_frame:
  assumes "increment cfg now ctr w = (r, w')"
  shows "touches_only (counter_key ctr) w w'"
proof (cases ctr)
  case (Email_rate e)
  with assms show ?thesis
    using bump_frame [of now "email_rl_key e" "EMAIL_WINDOW_SECONDS cfg" "\<lambda>c. c > EMAIL_LIMIT cfg" w r w']
    by (simp add: is_email_rate_limited_def)
next
  case (Ip_rate a)
  with assms show ?thesis
    using bump_frame [of now "ip_rl_key a" "IP_WINDOW_SECONDS cfg" "\<lambda>c. c > IP_LIMIT cfg" w r w']
    by (simp add: is_ip_rate_limited_def)
next
  case (Failed_attempts e)
  with assms show ?thesis
    using bump_frame [of now "failed_key e" "FAILED_WINDOW_SECONDS cfg" "\<lambda>c. c \<ge> FAILED_LIMIT cfg" w r w']
    by (simp add: track_failed_attempt_def)
qed

lemma touches_only_otp:
  assumes "touches_only k w w'" "\<forall>e. otp_key e \<noteq> k"
  shows "\<forall>e. kv w' (otp_key e) = kv w (otp_key e)"
  using assms by (simp add: touches_only_def)

lemma touches_only_cmds:
  assumes "touches_only k w w'"
  shows "length (cmds w) \<le> length (cmds w')" "\<forall>k' s v. SETEX k' s v \<notin> set (sent_since w w')"
  using assms by (auto simp: touches_only_def sent_since_def)

lemma sent_since_trans:
  assumes "touches_only k1 w w1" "touches_only k2 w1 w2"
  shows "\<forall>k' s v. SETEX k' s v \<notin> set (sent_since w w2)"
proof -
  from assms(1) obtain cs1 where 1: "cmds w1 = cmds w @ cs1" "\<forall>k' s v. SETEX k' s v \<notin> set cs1"
    by (auto simp: touches_only_def)
  from assms(2) obtain cs2 where 2: "cmds w2 = cmds w1 @ cs2" "\<forall>k' s v. SETEX k' s v \<notin> set cs2"
    by (auto simp: touches_only_def)
  from 1 2 show ?thesis by (simp add: sent_since_def)
qed

subsection \<open>OTPRequestView, branch by branch\<close>

lemma request_post_email_limited:
  assumes valid: "OTPRequestSerializer_is_valid d request = Inr e"
      and cnt: "lookup now (kv w) (email_rl_key e) = Some (str_of_int c, Some x)"
      and pos: "1 \<le> c" and lim: "EMAIL_LIMIT cfg < c + 1"
  shows "\<exists>resp w'. OTPRequestView_post d cfg now request w = (Inr resp, w')
      \<and> r_status resp = 429 \<and> r_data resp = Retry_after_seconds (x - now)
      \<and> kv w' = (kv w)(email_rl_key e \<mapsto> (str_of_int (c + 1), Some x))"
proof -
  have "is_email_rate_limited cfg now e w =
    (Inr (True, x - now),
     w\<lparr>kv := (kv w)(email_rl_key e \<mapsto> (str_of_int (c + 1), Some x)),
       cmds := cmds w @ [INCR (email_rl_key e), TTL (email_rl_key e)]\<rparr>)"
    using increment_next [of now w "Email_rate e" c x cfg] cnt pos lim by simp
  then show ?thesis
    by (simp add: OTPRequestView_post_def valid Let_def and_then_def delay_def ret_def)
qed


lemma request_valid0:
  "OTPRequestSerializer_is_valid deps0 (request0 ''A@X.com'' []) = Inr ''a@x.com''"
  "OTPVerifySerializer_is_valid deps0 (request0 ''A@X.com'' ''012345'') = Inr (''a@x.com'', ''012345'')"
  "get_client_ip d (request0 e p) = Some ''10.0.0.1''"
  "email_field deps0 ''A@X.com'' = Inr ''A@X.com''"
  "email_field deps0 '' a@x.COM'' = Inr ''a@x.COM''"
  "py_lower deps0 ''A@X.com'' = py_lower deps0 ''a@x.COM''"
  "map (\<lambda>i. digit_of (rand world0 (rand_pos world0 + i) mod 10))
     [0..<nat (OTP_LENGTH default_config)] = ''012345''"
  by (code_simp | simp add: get_client_ip_def request0_def)+

subsection \<open>A rejected request issues nothing\<close>

text \<open>
  Claim C8. Whenever \<^verbatim>\<open>OTPRequestView.post\<close> answers 429, whichever of the two rate limits
  tripped: the stored OTP record of every identity is exactly what it was before the
  request, no draw was taken from the random source (no code was generated), no
  \<^verbatim>\<open>SETEX\<close> was sent to the store, and no email task was enqueued.
\<close>

theorem C8_rate_limited_no_otp:
  assumes run: "OTPRequestView_post d cfg now request w = (Inr resp, w')"
      and limited: "r_status resp = 429"
  shows "(\<forall>e. kv w' (otp_key e) = kv w (otp_key e))
      \<and> rand_pos w' = rand_pos w
      \<and> (\<forall>k s v. SETEX k s v \<notin> set (sent_since w w'))
      \<and> (\<forall>e p. Send_otp_email e p \<notin> set (queued_since w w'))"
proof (cases "OTPRequestSerializer_is_valid d request")
  case (Inl errors)
  with run limited show ?thesis
    by (auto simp: OTPRequestView_post_def ret_def)
next
  case (Inr email)
  let ?ip = "get_client_ip d request"
  obtain r1 w1 where e1: "is_email_rate_limited cfg now email w = (r1, w1)"
    by (cases "is_email_rate_limited cfg now email w")
  obtain r2 w2 where e2: "is_ip_rate_limited cfg now ?ip w1 = (r2, w2)"
    by (cases "is_ip_rate_limited cfg now ?ip w1")
  from e1 have f1: "touches_only (email_rl_key email) w w1"
    using increment_frame [of cfg now "Email_rate email" w r1 w1] by simp
  from e2 have f2: "touches_only (ip_rl_key ?ip) w1 w2"
    using increment_frame [of cfg now "Ip_rate ?ip" w1 r2 w2] by simp
  from run limited Inr e1 e2 have
    "(\<exists>a. w' = w1\<lparr>queue := queue w1 @ [Write_audit_log ''OTP_REQUESTED'' email ?ip
                         (get_client_user_agent request) a]\<rparr>)
     \<or> (\<exists>a. w' = w2\<lparr>queue := queue w2 @ [Write_audit_log ''OTP_REQUESTED'' email ?ip
                         (get_client_user_agent request) a]\<rparr>)"
    by (auto simp: OTPRequestView_post_def Let_def and_then_def delay_def ret_def
        generate_otp_def store_otp_def redis_setex_def
        split: sum.splits prod.splits if_splits)
  then show ?thesis
  proof
    assume "\<exists>a. w' = w1\<lparr>queue := queue w1 @ [Write_audit_log ''OTP_REQUESTED'' email ?ip
                         (get_client_user_agent request) a]\<rparr>"
    then obtain a where w': "w' = w1\<lparr>queue := queue w1 @ [Write_audit_log ''OTP_REQUESTED'' email ?ip
                         (get_client_user_agent request) a]\<rparr>" by blast
    from touches_only_otp [OF f1] have "\<forall>e. kv w1 (otp_key e) = kv w (otp_key e)"
      by (simp add: key_distinct)
    moreover from f1 have "rand_pos w1 = rand_pos w" "queue w1 = queue w"
      by (simp_all add: touches_only_def)
    moreover from touches_only_cmds [OF f1]
    have "\<forall>k s v. SETEX k s v \<notin> set (sent_since w w1)" by simp
    ultimately show ?thesis
      by (simp add: w' sent_since_def queued_since_def)
  next
    assume "\<exists>a. w' = w2\<lparr>queue := queue w2 @ [Write_audit_log ''OTP_REQUESTED'' email ?ip
                         (get_client_user_agent request) a]\<rparr>"
    then obtain a where w': "w' = w2\<lparr>queue := queue w2 @ [Write_audit_log ''OTP_REQUESTED'' email ?ip
                         (get_client_user_agent request) a]\<rparr>" by blast
    from touches_only_otp [OF f1] touches_only_otp [OF f2]
    have "\<forall>e. kv w2 (otp_key e) = kv w (otp_key e)"
      by (simp add: key_distinct)
    moreover from f1 f2 have "rand_pos w2 = rand_pos w" "queue w2 = queue w"
      by (simp_all add: touches_only_def)
    moreover from sent_since_trans [OF f1 f2]
    have "\<forall>k s v. SETEX k s v \<notin> set (sent_since w w2)" .
    ultimately show ?thesis
      by (simp add: w' sent_since_def queued_since_def)
  qed
qed

theorem C8_rate_limited_no_otp_witness:
  "\<exists>resp w'.
      OTPRequestView_post deps0 default_config 10 (request0 ''A@X.com'' [])
        (world1\<lparr>kv := (kv world1)(email_rl_key ''a@x.com'' \<mapsto> (str_of_int 3, Some 600))\<rparr>)
        = (Inr resp, w')
      \<and> r_status resp = 429
      \<and> kv w' (otp_key ''a@x.com'') = Some (''123456'', Some 300)
      \<and> rand_pos w' = 0"
proof -
  let ?w = "world1\<lparr>kv := (kv world1)(email_rl_key ''a@x.com'' \<mapsto> (str_of_int 3, Some 600))\<rparr>"
  have cnt: "lookup 10 (kv ?w) (email_rl_key ''a@x.com'') = Some (str_of_int 3, Some 600)"
    by (simp add: lookup_def)
  have lim: "EMAIL_LIMIT default_config < 3 + 1" by (simp add: default_config_def)
  have pos: "(1 :: int) \<le> 3" by simp
  from request_post_email_limited [OF request_valid0(1) cnt pos lim] obtain resp w' where
    run: "OTPRequestView_post deps0 default_config 10 (request0 ''A@X.com'' []) ?w = (Inr resp, w')"
    and st: "r_status resp = 429"
    by blast
  from C8_rate_limited_no_otp [OF run st] have
    "kv w' (otp_key ''a@x.com'') = kv ?w (otp_key ''a@x.com'')" "rand_pos w' = rand_pos ?w"
    by simp_all
  then have "kv w' (otp_key ''a@x.com'') = Some (''123456'', Some 300)" "rand_pos w' = 0"
    by (simp_all add: world1_def world0_def key_distinct)
  with run st show ?thesis by blast
qed


section \<open>Counters under whole requests\<close>

lemma kv_same_counter:
  assumes "kv w' k = kv w k"
  shows "count_at now w' k = count_at now w k" "expiry_at now w' k = expiry_at now w k"
    "counter_wf now w' k = counter_wf now w k"
  using lookup_cong [of "kv w'" k "kv w" now, OF assms]
  by (simp_all add: count_at_def expiry_at_def counter_wf_def)

lemma non_decreasing_same:
  assumes "kv w' k = kv w k" "counter_wf now w k"
  shows "non_decreasing now k w w'"
  using assms kv_same_counter [OF assms(1), of now]
  by (simp add: non_decreasing_def)

lemma non_decreasing_cong:
  assumes "kv a k = kv w k" "kv b k = kv w' k"
  shows "non_decreasing now k a b = non_decreasing now k w w'"
  using kv_same_counter [OF assms(1), of now] kv_same_counter [OF assms(2), of now]
  by (simp add: non_decreasing_def)

lemma counter_wf_count: "counter_wf now w k \<Longrightarrow> count_at now w k = 0 \<or> 1 \<le> count_at now w k"
  by (auto simp: counter_wf_def count_at_def split: option.splits)

lemma non_decreasing_trans:
  assumes wf: "counter_wf now w k"
      and 1: "non_decreasing now k w w1" and 2: "non_decreasing now k w1 w2"
  shows "non_decreasing now k w w2"
proof -
  from 1 2 have le: "count_at now w k \<le> count_at now w2 k" by (simp add: non_decreasing_def)
  have ex: "count_at now w k = 0 \<or> expiry_at now w2 k = expiry_at now w k"
  proof (cases "count_at now w k = 0")
    case True
    then show ?thesis by simp
  next
    case False
    with counter_wf_count [OF wf] have "1 \<le> count_at now w k" by simp
    with 1 have "count_at now w1 k \<noteq> 0" by (simp add: non_decreasing_def)
    with 1 2 False show ?thesis by (simp add: non_decreasing_def)
  qed
  from 2 le ex show ?thesis by (simp add: non_decreasing_def)
qed

lemma increment_mono:
  assumes run: "increment cfg now ctr w = (r, w')"
      and wf: "counter_wf now w k"
      and win: "0 < counter_window cfg ctr"
  shows "non_decreasing now k w w'"
proof (cases "k = counter_key ctr")
  case False
  from increment_frame [OF run] False have "kv w' k = kv w k"
    by (simp add: touches_only_def)
  then show ?thesis using wf by (rule non_decreasing_same)
next
  case True
  from wf [unfolded True] show ?thesis
  proof (cases rule: counter_wf_cases)
    case absent
    from increment_first [OF absent win] run
    have w': "w' = w\<lparr>kv := (kv w)(counter_key ctr \<mapsto> (''1'', Some (now + counter_window cfg ctr))),
       cmds := cmds w @ INCR (counter_key ctr) # EXPIRE (counter_key ctr) (counter_window cfg ctr)
                 # (if over_limit cfg ctr 1 then [TTL (counter_key ctr)] else [])\<rparr>"
      by simp
    have one: "int_of_str ''1'' = Some 1"
      using int_of_str_str_of_int [of 1] by (simp add: str_of_int_1)
    from absent win one show ?thesis
      by (simp add: True w' non_decreasing_def counter_wf_def count_at_def expiry_at_def
          lookup_simps str_of_int_1)
  next
    case (present c x)
    from increment_next [OF present] run
    have w': "w' = w\<lparr>kv := (kv w)(counter_key ctr \<mapsto> (str_of_int (c + 1), Some x)),
       cmds := cmds w @ INCR (counter_key ctr)
                 # (if over_limit cfg ctr (c + 1) then [TTL (counter_key ctr)] else [])\<rparr>"
      by simp
    from present lookup_live [OF present(1)] show ?thesis
      by (simp add: True w' non_decreasing_def counter_wf_def count_at_def expiry_at_def
          lookup_simps int_of_str_str_of_int)
  qed
qed

lemma request_post_shape:
  assumes run: "OTPRequestView_post d cfg now request w = (res, w')"
  shows "kv w' = kv w
    \<or> (\<exists>email r1 w1. is_email_rate_limited cfg now email w = (r1, w1)
         \<and> ((\<forall>k. k \<noteq> otp_key email \<longrightarrow> kv w' k = kv w1 k)
            \<or> (\<exists>r2 w2. is_ip_rate_limited cfg now (get_client_ip d request) w1 = (r2, w2)
                  \<and> (\<forall>k. k \<noteq> otp_key email \<longrightarrow> kv w' k = kv w2 k))))"
proof (cases "OTPRequestSerializer_is_valid d request")
  case (Inl errors)
  with run show ?thesis by (auto simp: OTPRequestView_post_def ret_def)
next
  case (Inr email)
  obtain r1 w1 where e1: "is_email_rate_limited cfg now email w = (r1, w1)"
    by (cases "is_email_rate_limited cfg now email w")
  obtain r2 w2 where e2: "is_ip_rate_limited cfg now (get_client_ip d request) w1 = (r2, w2)"
    by (cases "is_ip_rate_limited cfg now (get_client_ip d request) w1")
  from run Inr e1 e2 have
    "(\<forall>k. k \<noteq> otp_key email \<longrightarrow> kv w' k = kv w1 k)
     \<or> (\<forall>k. k \<noteq> otp_key email \<longrightarrow> kv w' k = kv w2 k)"
    by (auto simp: OTPRequestView_post_def Let_def and_then_def delay_def ret_def
        generate_otp_def store_otp_def redis_setex_def store_defs
        split: sum.splits prod.splits if_splits)
  with e1 e2 show ?thesis by blast
qed

lemma request_post_mono:
  assumes run: "OTPRequestView_post d cfg now request w = (res, w')"
      and wf: "counter_wf now w (counter_key ctr)"
      and win: "0 < EMAIL_WINDOW_SECONDS cfg" "0 < IP_WINDOW_SECONDS cfg"
  shows "non_decreasing now (counter_key ctr) w w'"
proof -
  let ?k = "counter_key ctr"
  from request_post_shape [OF run] consider
    (same) "kv w' = kv w"
    | (email) email r1 w1 where "is_email_rate_limited cfg now email w = (r1, w1)"
        "\<forall>k. k \<noteq> otp_key email \<longrightarrow> kv w' k = kv w1 k"
    | (ip) email r1 w1 r2 w2 where "is_email_rate_limited cfg now email w = (r1, w1)"
        "is_ip_rate_limited cfg now (get_client_ip d request) w1 = (r2, w2)"
        "\<forall>k. k \<noteq> otp_key email \<longrightarrow> kv w' k = kv w2 k"
    by blast
  then show ?thesis
  proof cases
    case same
    then have "kv w' ?k = kv w ?k" by simp
    then show ?thesis using wf by (rule non_decreasing_same)
  next
    case (email email r1 w1)
    from email(1) have "increment cfg now (Email_rate email) w = (r1, w1)" by simp
    from increment_mono [OF this wf] win have 1: "non_decreasing now ?k w w1" by simp
    from email(2) have "kv w' ?k = kv w1 ?k" by (simp add: otp_key_counter)
    with 1 non_decreasing_cong [of w ?k w w' w1 now] show ?thesis by simp
  next
    case (ip email r1 w1 r2 w2)
    from ip(1) have "increment cfg now (Email_rate email) w = (r1, w1)" by simp
    from increment_mono [OF this wf] win have 1: "non_decreasing now ?k w w1" by simp
    then have wf1: "counter_wf now w1 ?k" by (simp add: non_decreasing_def)
    from ip(2) have "increment cfg now (Ip_rate (get_client_ip d request)) w1 = (r2, w2)" by simp
    from increment_mono [OF this wf1] win have 2: "non_decreasing now ?k w1 w2" by simp
    from non_decreasing_trans [OF wf 1 2] have 3: "non_decreasing now ?k w w2" .
    from ip(3) have "kv w' ?k = kv w2 ?k" by (simp add: otp_key_counter)
    with 3 non_decreasing_cong [of w ?k w w' w2 now] show ?thesis by simp
  qed
qed

lemma verify_otp_False:
  "verify_otp now e p w = (Inr False, w') \<Longrightarrow> kv w' = kv w"
  by (auto simp: verify_otp_def io_defs store_defs redis_defs split: option.splits if_splits)

lemma verify_otp_any:
  "verify_otp now e p w = (r, w') \<Longrightarrow> \<forall>k. k \<noteq> otp_key e \<longrightarrow> kv w' k = kv w k"
  by (auto simp: verify_otp_def io_defs store_defs redis_defs split: option.splits if_splits)

lemma verify_post_shape:
  assumes run: "OTPVerifyView_post d cfg now request w = (res, w')"
  shows "kv w' = kv w
    \<or> (\<exists>e p. OTPVerifySerializer_is_valid d request = Inr (e, p)
         \<and> ((\<forall>k. k \<noteq> otp_key e \<longrightarrow> kv w' k = kv w k)
            \<or> (\<exists>w2 r3 w3. kv w2 = kv w \<and> track_failed_attempt cfg now e w2 = (r3, w3)
                  \<and> kv w' = kv w3)
            \<or> (\<exists>resp. res = Inr resp \<and> r_status resp = 201
                  \<and> (\<forall>k. k \<noteq> otp_key e \<and> k \<noteq> failed_key e \<longrightarrow> kv w' k = kv w k)
                  \<and> kv w' (failed_key e) = None)))"
proof (cases "OTPVerifySerializer_is_valid d request")
  case (Inl errors)
  with run show ?thesis by (auto simp: OTPVerifyView_post_def ret_def)
next
  case (Inr ep)
  obtain e p where ep: "ep = (e, p)" by (cases ep)
  note valid = Inr [unfolded ep]
  obtain r1 w1 where l: "is_email_locked cfg now e w = (r1, w1)"
    by (cases "is_email_locked cfg now e w")
  obtain r2 w2 where v: "verify_otp now e p w1 = (r2, w2)"
    by (cases "verify_otp now e p w1")
  obtain r3 w3 where t: "track_failed_attempt cfg now e w2 = (r3, w3)"
    by (cases "track_failed_attempt cfg now e w2")
  obtain r4 w4 where g: "get_or_create now e w2 = (r4, w4)"
    by (cases "get_or_create now e w2")
  from is_email_locked_frame [OF l] have 1: "kv w1 = kv w" by simp
  from verify_otp_any [OF v] 1 have 2: "\<forall>k. k \<noteq> otp_key e \<longrightarrow> kv w2 k = kv w k" by simp
  from get_or_create_frame [OF g] have 4: "kv w4 = kv w2" by simp
  from run have
    "kv w' = kv w1
     \<or> kv w' = kv w2
     \<or> (r2 = Inr False \<and> kv w' = kv w3)
     \<or> kv w' = kv w4
     \<or> (\<exists>resp. res = Inr resp \<and> r_status resp = 201 \<and> kv w' = (kv w4)(failed_key e := None))"
    by (auto simp: OTPVerifyView_post_def valid Let_def and_then_def l v t g
        clear_failed_attempts_eq delay_def ret_def
        split: sum.splits prod.splits if_splits)
  then consider (a) "kv w' = kv w1" | (b) "kv w' = kv w2" | (c) "r2 = Inr False" "kv w' = kv w3"
    | (d) "kv w' = kv w4"
    | (e) resp where "res = Inr resp" "r_status resp = 201" "kv w' = (kv w4)(failed_key e := None)"
    by blast
  then show ?thesis
  proof cases
    case a
    with 1 show ?thesis by simp
  next
    case b
    with 2 valid show ?thesis by simp
  next
    case c
    from verify_otp_False [OF v [unfolded c(1)]] 1 have "kv w2 = kv w" by simp
    with t c(2) valid show ?thesis by blast
  next
    case d
    with 4 2 valid show ?thesis by simp
  next
    case (e resp)
    from e(3) 4 2 have "\<forall>k. k \<noteq> otp_key e \<and> k \<noteq> failed_key e \<longrightarrow> kv w' k = kv w k"
      "kv w' (failed_key e) = None"
      by simp_all
    with e(1,2) valid show ?thesis by blast
  qed
qed

lemma counter_key_failed: "counter_key ctr = failed_key e \<Longrightarrow> ctr = Failed_attempts e"
  by (cases ctr) (simp_all add: key_distinct key_inj)

lemma verify_post_mono:
  assumes run: "OTPVerifyView_post d cfg now request w = (res, w')"
      and wf: "counter_wf now w (counter_key ctr)"
      and win: "0 < FAILED_WINDOW_SECONDS cfg"
  shows "non_decreasing now (counter_key ctr) w w'
      \<or> (\<exists>e p resp. ctr = Failed_attempts e
            \<and> OTPVerifySerializer_is_valid d request = Inr (e, p)
            \<and> res = Inr resp \<and> r_status resp = 201 \<and> kv w' (counter_key ctr) = None)"
proof -
  let ?k = "counter_key ctr"
  from verify_post_shape [OF run] consider
    (same) "kv w' = kv w"
    | (otp) e p where "OTPVerifySerializer_is_valid d request = Inr (e, p)"
        "\<forall>k. k \<noteq> otp_key e \<longrightarrow> kv w' k = kv w k"
    | (track) e p w2 r3 w3 where "OTPVerifySerializer_is_valid d request = Inr (e, p)"
        "kv w2 = kv w" "track_failed_attempt cfg now e w2 = (r3, w3)" "kv w' = kv w3"
    | (ok) e p resp where "OTPVerifySerializer_is_valid d request = Inr (e, p)"
        "res = Inr resp" "r_status resp = 201"
        "\<forall>k. k \<noteq> otp_key e \<and> k \<noteq> failed_key e \<longrightarrow> kv w' k = kv w k"
        "kv w' (failed_key e) = None"
    by blast
  then show ?thesis
  proof cases
    case same
    then have "kv w' ?k = kv w ?k" by simp
    from non_decreasing_same [OF this wf] show ?thesis by simp
  next
    case (otp e p)
    then have "kv w' ?k = kv w ?k" by (simp add: otp_key_counter)
    from non_decreasing_same [OF this wf] show ?thesis by simp
  next
    case (track e p w2 r3 w3)
    from track(2) have same2: "kv w2 ?k = kv w ?k" by simp
    with wf kv_same_counter(3) [OF same2, of now] have wf2: "counter_wf now w2 ?k" by simp
    from track(3) have "increment cfg now (Failed_attempts e) w2 = (r3, w3)" by simp
    from increment_mono [OF this wf2] win have "non_decreasing now ?k w2 w3" by simp
    moreover from track(4) have "kv w3 ?k = kv w' ?k" by simp
    ultimately have "non_decreasing now ?k w w'"
      using non_decreasing_cong [OF same2 \<open>kv w3 ?k = kv w' ?k\<close>, of now] by simp
    then show ?thesis by simp
  next
    case (ok e p resp)
    show ?thesis
    proof (cases "?k = failed_key e")
      case True
      from counter_key_failed [OF True] ok True show ?thesis by simp
    next
      case False
      with ok(4) have "kv w' ?k = kv w ?k" by (simp add: otp_key_counter)
      from non_decreasing_same [OF this wf] show ?thesis by simp
    qed
  qed
qed

subsection \<open>Three failures, a success, a failure\<close>

lemma verify_post_wrong_first_kv:
  assumes valid: "OTPVerifySerializer_is_valid d request = Inr (e, p)"
      and cnt: "kv w (failed_key e) = None"
      and lim: "1 < FAILED_LIMIT cfg" and win: "0 < FAILED_WINDOW_SECONDS cfg"
      and bad: "map_option fst (lookup now (kv w) (otp_key e)) \<noteq> Some p"
  shows "\<exists>w'. OTPVerifyView_post d cfg now request w = (Inr invalid_response, w')
      \<and> kv w' = (kv w)(failed_key e \<mapsto> (str_of_int 1, Some (now + FAILED_WINDOW_SECONDS cfg)))
      \<and> users w' = users w"
proof -
  from cnt have "lookup now (kv w) (failed_key e) = None" by (rule lookup_kv_None)
  from verify_post_wrong_first [OF valid this lim win] bad show ?thesis
    by (simp add: str_of_int_1)
qed

lemma verify_post_wrong_next_kv:
  assumes valid: "OTPVerifySerializer_is_valid d request = Inr (e, p)"
      and cnt: "kv w (failed_key e) = Some (str_of_int c, Some x)" and live: "now < x"
      and pos: "1 \<le> c" and lim: "c + 1 < FAILED_LIMIT cfg"
      and bad: "map_option fst (lookup now (kv w) (otp_key e)) \<noteq> Some p"
  shows "\<exists>w'. OTPVerifyView_post d cfg now request w = (Inr invalid_response, w')
      \<and> kv w' = (kv w)(failed_key e \<mapsto> (str_of_int (c + 1), Some x))
      \<and> users w' = users w"
proof -
  from cnt live have "lookup now (kv w) (failed_key e) = Some (str_of_int c, Some x)"
    by (rule lookup_kv_live)
  from verify_post_wrong_next [OF valid this pos lim] bad show ?thesis
    by simp
qed

lemma count_at_kv:
  "kv w k = Some (str_of_int c, Some x) \<Longrightarrow> now < x \<Longrightarrow>
     count_at now w k = c \<and> expiry_at now w k = Some x"
  by (simp add: count_at_def expiry_at_def lookup_def int_of_str_str_of_int)

lemma count_at_unset: "kv w k = None \<Longrightarrow> count_at now w k = 0"
  by (simp add: count_at_def lookup_def)

lemma failure_window_trace:
  "\<exists>w3 w4 w5.
     run_seq (\<lambda>(t, r). OTPVerifyView_post deps0 default_config t r)
       [(1, request0 ''a@x.com'' ''000000''), (1, request0 ''a@x.com'' ''000000''),
        (1, request0 ''a@x.com'' ''000000'')] world1
       = (Inr [invalid_response, invalid_response, invalid_response], w3)
     \<and> kv w3 (failed_key ''a@x.com'') = Some (str_of_int 3, Some 901)
     \<and> (\<exists>resp. run_seq (\<lambda>(t, r). OTPVerifyView_post deps0 default_config t r)
           [(1, request0 ''a@x.com'' ''000000''), (1, request0 ''a@x.com'' ''000000''),
            (1, request0 ''a@x.com'' ''000000''), (10, request0 ''A@x.com'' ''123456'')] world1
           = (Inr [invalid_response, invalid_response, invalid_response, resp], w4)
         \<and> r_status resp = 201
         \<and> run_seq (\<lambda>(t, r). OTPVerifyView_post deps0 default_config t r)
           [(1, request0 ''a@x.com'' ''000000''), (1, request0 ''a@x.com'' ''000000''),
            (1, request0 ''a@x.com'' ''000000''), (10, request0 ''A@x.com'' ''123456''),
            (11, request0 ''a@x.com'' ''000000'')] world1
           = (Inr [invalid_response, invalid_response, invalid_response, resp, invalid_response], w5))
     \<and> kv w4 (failed_key ''a@x.com'') = None
     \<and> kv w5 (failed_key ''a@x.com'') = Some (str_of_int 1, Some 911)"
proof -
  let ?e = "''a@x.com''"
  let ?bad = "request0 ''a@x.com'' ''000000''" and ?good = "request0 ''A@x.com'' ''123456''"
  let ?post = "OTPVerifyView_post deps0 default_config"
  have cfg: "1 < FAILED_LIMIT default_config" "0 < FAILED_WINDOW_SECONDS default_config"
    "1 + 1 < FAILED_LIMIT default_config" "2 + 1 < FAILED_LIMIT default_config"
    "3 < FAILED_LIMIT default_config" "FAILED_WINDOW_SECONDS default_config = 900"
    by (simp_all add: default_config_def)
  have otp0: "kv world1 (otp_key ?e) = Some (''123456'', Some 300)" by (rule fixture_facts(2))
  have bad_of: "map_option fst (lookup t (kv w) (otp_key ?e)) \<noteq> Some ''000000''"
    if "kv w (otp_key ?e) = Some (''123456'', Some 300) \<or> kv w (otp_key ?e) = None" for t w
    using that by (auto simp: lookup_def split: if_splits)
  \<comment> \<open>three wrong codes at second 1\<close>
  from verify_post_wrong_first_kv [OF valid0(2) fixture_facts(3) cfg(1) cfg(2) bad_of, of 1] otp0
  obtain w1 where s1: "?post 1 ?bad world1 = (Inr invalid_response, w1)"
    and k1: "kv w1 = (kv world1)(failed_key ?e \<mapsto> (str_of_int 1, Some 901))"
    and u1: "users w1 = users world1"
    by (auto simp: cfg(6))
  from k1 otp0 have o1: "kv w1 (otp_key ?e) = Some (''123456'', Some 300)"
    and f1: "kv w1 (failed_key ?e) = Some (str_of_int 1, Some 901)"
    by (simp_all add: key_distinct)
  from verify_post_wrong_next_kv [OF valid0(2) f1 _ _ cfg(3) bad_of, of 1] o1
  obtain w2 where s2: "?post 1 ?bad w1 = (Inr invalid_response, w2)"
    and k2: "kv w2 = (kv w1)(failed_key ?e \<mapsto> (str_of_int 2, Some 901))"
    and u2: "users w2 = users w1"
    by auto
  from k2 o1 have o2: "kv w2 (otp_key ?e) = Some (''123456'', Some 300)"
    and f2: "kv w2 (failed_key ?e) = Some (str_of_int 2, Some 901)"
    by (simp_all add: key_distinct)
  from verify_post_wrong_next_kv [OF valid0(2) f2 _ _ cfg(4) bad_of, of 1] o2
  obtain w3 where s3: "?post 1 ?bad w2 = (Inr invalid_response, w3)"
    and k3: "kv w3 = (kv w2)(failed_key ?e \<mapsto> (str_of_int 3, Some 901))"
    and u3: "users w3 = users w2"
    by auto
  from k3 o2 have o3: "kv w3 (otp_key ?e) = Some (''123456'', Some 300)"
    and f3: "kv w3 (failed_key ?e) = Some (str_of_int 3, Some 901)"
    by (simp_all add: key_distinct)
  \<comment> \<open>the right code at second 10\<close>
  from f3 have fb3: "fails_bounded w3 ?e 3"
    by (intro fails_bounded_upd [of 3 3 w3 ?e 901]) simp_all
  from o3 have live3: "lookup 10 (kv w3) (otp_key ?e) = Some (''123456'', Some 300)"
    by (intro lookup_kv_live) simp_all
  from u1 u2 u3 have "users w3 = users world1" by simp
  from can_resolve_users [OF this] fixture_facts(5) have tab3: "can_resolve w3 ?e" by simp
  have ne: "''123456'' \<noteq> []" by simp
  from verify_post_success [OF valid0(1) fb3 cfg(5) live3 ne tab3]
  obtain resp w4 where s4: "?post 10 ?good w3 = (Inr resp, w4)" and ok: "r_status resp = 201"
    and k4: "kv w4 = (kv w3)(otp_key ?e := None, failed_key ?e := None)"
    by blast
  from k4 have o4: "kv w4 (otp_key ?e) = None" and f4: "kv w4 (failed_key ?e) = None"
    by (simp_all add: key_distinct)
  \<comment> \<open>a wrong code at second 11\<close>
  from verify_post_wrong_first_kv [OF valid0(2) f4 cfg(1) cfg(2) bad_of, of 11] o4
  obtain w5 where s5: "?post 11 ?bad w4 = (Inr invalid_response, w5)"
    and k5: "kv w5 = (kv w4)(failed_key ?e \<mapsto> (str_of_int 1, Some 911))"
    by (auto simp: cfg(6))
  from k5 have f5: "kv w5 (failed_key ?e) = Some (str_of_int 1, Some 911)" by simp
  from s1 s2 s3 have r3: "run_seq (\<lambda>(t, r). ?post t r) [(1, ?bad), (1, ?bad), (1, ?bad)] world1
      = (Inr [invalid_response, invalid_response, invalid_response], w3)"
    by (simp add: and_then_def ret_def)
  from s1 s2 s3 s4 have r4: "run_seq (\<lambda>(t, r). ?post t r)
      [(1, ?bad), (1, ?bad), (1, ?bad), (10, ?good)] world1
      = (Inr [invalid_response, invalid_response, invalid_response, resp], w4)"
    by (simp add: and_then_def ret_def)
  from s1 s2 s3 s4 s5 have r5: "run_seq (\<lambda>(t, r). ?post t r)
      [(1, ?bad), (1, ?bad), (1, ?bad), (10, ?good), (11, ?bad)] world1
      = (Inr [invalid_response, invalid_response, invalid_response, resp, invalid_response], w5)"
    by (simp add: and_then_def ret_def)
  from r3 r4 r5 ok f3 f4 f5 show ?thesis by blast
qed

text \<open>
  The failed-attempt counter does go down inside its window. With the code \<open>123456\<close>
  stored for \<open>a@x.com\<close>: three wrong codes at second 1 bring the counter to 3, to expire
  at second 901; the right code at second 10 is answered 201 and the counter reads 0; a
  wrong code at second 11 brings it to 1, to expire at second 911. Claim C7 as stated
  (the value never decreases while the window is active) fails here: the view deletes the
  counter on success, as the data model says (reset to absent on successful verify).
\<close>

theorem C7_counterexample:
  "count_at 10 (snd (run_seq (\<lambda>(t, r). OTPVerifyView_post deps0 default_config t r)
       [(1, request0 ''a@x.com'' ''000000''), (1, request0 ''a@x.com'' ''000000''),
        (1, request0 ''a@x.com'' ''000000'')] world1)) (failed_key ''a@x.com'') = 3
   \<and> expiry_at 10 (snd (run_seq (\<lambda>(t, r). OTPVerifyView_post deps0 default_config t r)
       [(1, request0 ''a@x.com'' ''000000''), (1, request0 ''a@x.com'' ''000000''),
        (1, request0 ''a@x.com'' ''000000'')] world1)) (failed_key ''a@x.com'') = Some 901
   \<and> count_at 10 (snd (run_seq (\<lambda>(t, r). OTPVerifyView_post deps0 default_config t r)
       [(1, request0 ''a@x.com'' ''000000''), (1, request0 ''a@x.com'' ''000000''),
        (1, request0 ''a@x.com'' ''000000''), (10, request0 ''A@x.com'' ''123456'')] world1))
       (failed_key ''a@x.com'') = 0
   \<and> count_at 11 (snd (run_seq (\<lambda>(t, r). OTPVerifyView_post deps0 default_config t r)
       [(1, request0 ''a@x.com'' ''000000''), (1, request0 ''a@x.com'' ''000000''),
        (1, request0 ''a@x.com'' ''000000''), (10, request0 ''A@x.com'' ''123456''),
        (11, request0 ''a@x.com'' ''000000'')] world1)) (failed_key ''a@x.com'') = 1
   \<and> expiry_at 11 (snd (run_seq (\<lambda>(t, r). OTPVerifyView_post deps0 default_config t r)
       [(1, request0 ''a@x.com'' ''000000''), (1, request0 ''a@x.com'' ''000000''),
        (1, request0 ''a@x.com'' ''000000''), (10, request0 ''A@x.com'' ''123456''),
        (11, request0 ''a@x.com'' ''000000'')] world1)) (failed_key ''a@x.com'') = Some 911"
proof -
  from failure_window_trace obtain w3 w4 w5 resp where
    r3: "run_seq (\<lambda>(t, r). OTPVerifyView_post deps0 default_config t r)
       [(1, request0 ''a@x.com'' ''000000''), (1, request0 ''a@x.com'' ''000000''),
        (1, request0 ''a@x.com'' ''000000'')] world1
       = (Inr [invalid_response, invalid_response, invalid_response], w3)"
    and r4: "run_seq (\<lambda>(t, r). OTPVerifyView_post deps0 default_config t r)
           [(1, request0 ''a@x.com'' ''000000''), (1, request0 ''a@x.com'' ''000000''),
            (1, request0 ''a@x.com'' ''000000''), (10, request0 ''A@x.com'' ''123456'')] world1
           = (Inr [invalid_response, invalid_response, invalid_response, resp], w4)"
    and r5: "run_seq (\<lambda>(t, r). OTPVerifyView_post deps0 default_config t r)
           [(1, request0 ''a@x.com'' ''000000''), (1, request0 ''a@x.com'' ''000000''),
            (1, request0 ''a@x.com'' ''000000''), (10, request0 ''A@x.com'' ''123456''),
            (11, request0 ''a@x.com'' ''000000'')] world1
           = (Inr [invalid_response, invalid_response, invalid_response, resp, invalid_response], w5)"
    and f3: "kv w3 (failed_key ''a@x.com'') = Some (str_of_int 3, Some 901)"
    and f4: "kv w4 (failed_key ''a@x.com'') = None"
    and f5: "kv w5 (failed_key ''a@x.com'') = Some (str_of_int 1, Some 911)"
    by blast
  from count_at_kv [OF f3, of 10] have "count_at 10 w3 (failed_key ''a@x.com'') = 3"
    "expiry_at 10 w3 (failed_key ''a@x.com'') = Some 901" by simp_all
  moreover from count_at_unset [OF f4] have "count_at 10 w4 (failed_key ''a@x.com'') = 0" .
  moreover from count_at_kv [OF f5, of 11] have "count_at 11 w5 (failed_key ''a@x.com'') = 1"
    "expiry_at 11 w5 (failed_key ''a@x.com'') = Some 911" by simp_all
  ultimately show ?thesis by (simp only: r3 r4 r5 snd_conv)
qed

subsection \<open>What does hold for the counters\<close>

lemma counter_inside_window:
  assumes "expiry_at now w k = Some x" "t < x"
  shows "count_at t w k = count_at now w k \<and> expiry_at t w k = Some x"
  using assms
  by (auto simp: expiry_at_def count_at_def lookup_def split: option.splits if_splits)

text \<open>
  Claim C7, amended. For each of the three counters (email rate, address rate, failed
  attempts), in any world where the counter is well-formed and any configuration with
  positive windows:
  \<^item> its increment returns and raises the value read inside the window by exactly one;
    the window end is set, with an \<^verbatim>\<open>EXPIRE\<close>, exactly when the increment makes the count
    1, and otherwise the end is the one the counter already had and no \<^verbatim>\<open>EXPIRE\<close> is
    sent (fixed window, not sliding);
  \<^item> an OTP request, whatever it answers, leaves the counter well-formed, its value not
    below what it was and, if it was running, its window end unchanged;
  \<^item> a verify request does the same, with one exception: a verification answered 201
    deletes the failed-attempt counter of the verified identity;
  \<^item> between requests, at every instant before the window ends the counter reads the
    same value and the same window end.
  Every request leaves the counter well-formed (or deleted), and the empty store is
  well-formed, so the hypothesis holds in every world the two endpoints can reach.
\<close>

theorem C7_counters_in_window:
  assumes wf: "counter_wf now w (counter_key ctr)"
      and win: "0 < EMAIL_WINDOW_SECONDS cfg" "0 < IP_WINDOW_SECONDS cfg"
        "0 < FAILED_WINDOW_SECONDS cfg"
  shows "(\<exists>r w' x.
          increment cfg now ctr w = (Inr r, w')
          \<and> expiry_at now w' (counter_key ctr) = Some x
          \<and> (\<forall>t. t < x \<longrightarrow>
                count_at t w' (counter_key ctr) = count_at now w (counter_key ctr) + 1
                \<and> expiry_at t w' (counter_key ctr) = Some x)
          \<and> (count_at now w (counter_key ctr) = 0 \<longrightarrow> x = now + counter_window cfg ctr)
          \<and> (count_at now w (counter_key ctr) \<noteq> 0 \<longrightarrow>
                expiry_at now w (counter_key ctr) = Some x)
          \<and> (EXPIRE (counter_key ctr) (counter_window cfg ctr) \<in> set (sent_since w w'))
               = (count_at now w (counter_key ctr) + 1 = 1)
          \<and> counter_wf now w' (counter_key ctr))
      \<and> (\<forall>res w'. OTPRequestView_post d cfg now rq w = (res, w')
            \<longrightarrow> non_decreasing now (counter_key ctr) w w')
      \<and> (\<forall>res w'. OTPVerifyView_post d cfg now rv w = (res, w')
            \<longrightarrow> non_decreasing now (counter_key ctr) w w'
                \<or> (\<exists>e p resp. ctr = Failed_attempts e
                      \<and> OTPVerifySerializer_is_valid d rv = Inr (e, p)
                      \<and> res = Inr resp \<and> r_status resp = 201
                      \<and> kv w' (counter_key ctr) = None))
      \<and> (\<forall>t x. expiry_at now w (counter_key ctr) = Some x \<and> t < x
            \<longrightarrow> count_at t w (counter_key ctr) = count_at now w (counter_key ctr)
                \<and> expiry_at t w (counter_key ctr) = Some x)"
proof (intro conjI allI impI)
  from win have "0 < counter_window cfg ctr" by (cases ctr) simp_all
  from increment_step [OF wf this]
  show "\<exists>r w' x.
          increment cfg now ctr w = (Inr r, w')
          \<and> expiry_at now w' (counter_key ctr) = Some x
          \<and> (\<forall>t. t < x \<longrightarrow>
                count_at t w' (counter_key ctr) = count_at now w (counter_key ctr) + 1
                \<and> expiry_at t w' (counter_key ctr) = Some x)
          \<and> (count_at now w (counter_key ctr) = 0 \<longrightarrow> x = now + counter_window cfg ctr)
          \<and> (count_at now w (counter_key ctr) \<noteq> 0 \<longrightarrow>
                expiry_at now w (counter_key ctr) = Some x)
          \<and> (EXPIRE (counter_key ctr) (counter_window cfg ctr) \<in> set (sent_since w w'))
               = (count_at now w (counter_key ctr) + 1 = 1)
          \<and> counter_wf now w' (counter_key ctr)" .
next
  fix res w'
  assume "OTPRequestView_post d cfg now rq w = (res, w')"
  from request_post_mono [OF this wf win(1) win(2)]
  show "non_decreasing now (counter_key ctr) w w'" .
next
  fix res w'
  assume "OTPVerifyView_post d cfg now rv w = (res, w')"
  from verify_post_mono [OF this wf win(3)]
  show "non_decreasing now (counter_key ctr) w w'
      \<or> (\<exists>e p resp. ctr = Failed_attempts e
            \<and> OTPVerifySerializer_is_valid d rv = Inr (e, p)
            \<and> res = Inr resp \<and> r_status resp = 201
            \<and> kv w' (counter_key ctr) = None)" .
next
  fix t x
  assume "expiry_at now w (counter_key ctr) = Some x \<and> t < x"
  then have "count_at t w (counter_key ctr) = count_at now w (counter_key ctr)
      \<and> expiry_at t w (counter_key ctr) = Some x"
    using counter_inside_window [of now w "counter_key ctr" x t] by simp
  then show "count_at t w (counter_key ctr) = count_at now w (counter_key ctr)"
    and "expiry_at t w (counter_key ctr) = Some x"
    by simp_all
qed

theorem C7_counters_in_window_witness:
  "(\<exists>r w'.
      increment default_config 10 (Email_rate ''a@x.com'')
        (world1\<lparr>kv := (kv world1)(email_rl_key ''a@x.com'' \<mapsto> (str_of_int 3, Some 600))\<rparr>)
        = (Inr r, w')
      \<and> count_at 10 w' (email_rl_key ''a@x.com'') = 4
      \<and> expiry_at 10 w' (email_rl_key ''a@x.com'') = Some 600
      \<and> EXPIRE (email_rl_key ''a@x.com'') 600 \<notin> set
           (sent_since
              (world1\<lparr>kv := (kv world1)(email_rl_key ''a@x.com'' \<mapsto> (str_of_int 3, Some 600))\<rparr>)
              w'))
   \<and> non_decreasing 10 (email_rl_key ''a@x.com'')
        (world1\<lparr>kv := (kv world1)(email_rl_key ''a@x.com'' \<mapsto> (str_of_int 3, Some 600))\<rparr>)
        (snd (OTPRequestView_post deps0 default_config 10 (request0 ''A@X.com'' [])
           (world1\<lparr>kv := (kv world1)(email_rl_key ''a@x.com'' \<mapsto> (str_of_int 3, Some 600))\<rparr>)))"
proof -
  let ?k = "email_rl_key ''a@x.com''"
  let ?w = "world1\<lparr>kv := (kv world1)(?k \<mapsto> (str_of_int 3, Some 600))\<rparr>"
  let ?rq = "request0 ''A@X.com'' []"
  have wf: "counter_wf 10 ?w (counter_key (Email_rate ''a@x.com''))"
    by (simp add: counter_wf_def lookup_def int_of_str_str_of_int)
  have win: "0 < EMAIL_WINDOW_SECONDS default_config" "0 < IP_WINDOW_SECONDS default_config"
    "0 < FAILED_WINDOW_SECONDS default_config"
    by (simp_all add: default_config_def)
  have c0: "count_at 10 ?w ?k = 3" "expiry_at 10 ?w ?k = Some 600"
    by (simp_all add: count_at_def expiry_at_def lookup_def int_of_str_str_of_int)
  note inst = C7_counters_in_window [OF wf win, where d = deps0 and rq = ?rq and rv = ?rq]
  note part1 = inst [THEN conjunct1]
  note part2 = inst [THEN conjunct2, THEN conjunct1]
  from part1 obtain r w' x where
    run: "increment default_config 10 (Email_rate ''a@x.com'') ?w = (Inr r, w')"
    and ex: "expiry_at 10 w' ?k = Some x"
    and inside: "\<forall>t. t < x \<longrightarrow> count_at t w' ?k = count_at 10 ?w ?k + 1
                       \<and> expiry_at t w' ?k = Some x"
    and later: "count_at 10 ?w ?k \<noteq> 0 \<longrightarrow> expiry_at 10 ?w ?k = Some x"
    and sent: "(EXPIRE ?k (counter_window default_config (Email_rate ''a@x.com''))
                  \<in> set (sent_since ?w w')) = (count_at 10 ?w ?k + 1 = 1)"
    by auto
  from later c0 have x: "x = 600" by simp
  with inside c0 have cnt: "count_at 10 w' ?k = 4" by simp
  from sent c0 have no: "EXPIRE ?k 600 \<notin> set (sent_since ?w w')"
    by (simp add: default_config_def)
  from part2 have "non_decreasing 10 ?k ?w (snd (OTPRequestView_post deps0 default_config 10 ?rq ?w))"
    by (simp add: prod_eq_iff)
  with run cnt ex x no show ?thesis by blast
qed


section \<open>The password-reset token request\<close>

text \<open>
  Claim C9. In \<^verbatim>\<open>ResetPasswordRequestToken.post\<close>, a request that names an email matching
  no user record is answered with HTTP status 404 while the body carries
  \<^verbatim>\<open>success: true\<close> and the message "Email address not found!"; nothing is changed.
\<close>

theorem C9_not_found_success_true:
  assumes "filter (\<lambda>u. u_email u = email) (users w) = []"
  shows "\<exists>resp. ResetPasswordRequestToken_post generate_activation_code default_expiry_date now
                  (Some email) w = (Inr resp, w)
      \<and> cr_status resp = 404 \<and> cr_success resp = True
      \<and> cr_message resp = ''Email address not found!''"
  using assms
  by (simp add: ResetPasswordRequestToken_post_def CustomResponse_def)

theorem C9_not_found_success_true_witness:
  "\<exists>resp. ResetPasswordRequestToken_post (ret ''000000'') (\<lambda>t. t + 600) 5
            (Some ''nobody@x.com'') world0 = (Inr resp, world0)
      \<and> cr_status resp = 404 \<and> cr_success resp = True"
proof -
  have "filter (\<lambda>u. u_email u = ''nobody@x.com'') (users world0) = []"
    by (simp add: world0_def)
  from C9_not_found_success_true [OF this] show ?thesis by blast
qed


section \<open>Letter case of the email\<close>




end
